theory Spec2Isabelle
  imports Complex_Main "HOL-Library.Sublist"
begin

section \<open>JavaScript values\<close>

text \<open>
  Upstream events, outbound frames and parsed records are plain JSON values. A property
  that is absent reads as \<open>undefined\<close>, modelled by \<open>None\<close>; \<open>JSON.stringify\<close> leaves
  out a property whose value is \<open>undefined\<close>, so an object built for \<open>emitEvent\<close> holds
  only its defined properties.
\<close>

datatype json =
    JNull
  | JBool bool
  | JNum real
  | JStr string
  | JArr "json list"
  | JObj "(string \<times> json) list"

text \<open>What thrown values the code tells apart: \<open>error instanceof Error\<close> or not.\<close>

datatype thrown = ErrorObj string | NonError

text \<open>
  The host the code runs on: the readings of \<open>Date.now()\<close> in call order, the number
  formatting of \<open>Number.prototype.toString\<close>, the message of the \<open>TypeError\<close> raised by
  reading a property of \<open>null\<close> or \<open>undefined\<close>, and \<open>JSON.parse\<close> (\<open>Inl\<close> the message
  of its \<open>SyntaxError\<close>).
\<close>

record host =
  Date_now :: "nat \<Rightarrow> int"
  Number_toString :: "real \<Rightarrow> string"
  TypeError_message :: "json option \<Rightarrow> string \<Rightarrow> string"
  JSON_parse :: "string \<Rightarrow> string + json"

text \<open>Control flow of a loop body: fall through, \<open>return\<close>, or \<open>throw\<close>.\<close>

datatype 'a flow = Continue 'a | Return 'a | Throw 'a thrown

fun truthy :: "json \<Rightarrow> bool" where
  "truthy JNull = False"
| "truthy (JBool b) = b"
| "truthy (JNum r) = (r \<noteq> 0)"
| "truthy (JStr s) = (s \<noteq> [])"
| "truthy (JArr xs) = True"
| "truthy (JObj kvs) = True"

fun truthy_opt :: "json option \<Rightarrow> bool" where
  "truthy_opt None = False"
| "truthy_opt (Some v) = truthy v"

text \<open>
  Property read \<open>v.k\<close> on a value that is not \<open>null\<close>: only objects carry the
  properties read by this code.
\<close>

fun get :: "json \<Rightarrow> string \<Rightarrow> json option" where
  "get (JObj kvs) k = map_of kvs k"
| "get v k = None"

text \<open>Optional chaining \<open>v?.k\<close>.\<close>

fun get_opt :: "json option \<Rightarrow> string \<Rightarrow> json option" where
  "get_opt None k = None"
| "get_opt (Some JNull) k = None"
| "get_opt (Some v) k = get v k"

text \<open>Plain read \<open>v.k\<close>, which throws a \<open>TypeError\<close> on \<open>null\<close> and \<open>undefined\<close>.\<close>

fun read_prop :: "host \<Rightarrow> json option \<Rightarrow> string \<Rightarrow> thrown + json option" where
  "read_prop h None k = Inl (ErrorObj (TypeError_message h None k))"
| "read_prop h (Some JNull) k = Inl (ErrorObj (TypeError_message h (Some JNull) k))"
| "read_prop h (Some v) k = Inr (get v k)"

text \<open>\<open>a || d\<close> for a default \<open>d\<close>.\<close>

fun or_else :: "json option \<Rightarrow> json \<Rightarrow> json" where
  "or_else None d = d"
| "or_else (Some v) d = (if truthy v then v else d)"

fun join_comma :: "string list \<Rightarrow> string" where
  "join_comma [] = []"
| "join_comma [s] = s"
| "join_comma (s # t # ss) = s @ '','' @ join_comma (t # ss)"

text \<open>\<open>ToString\<close>, as applied by \<open>+\<close> on a string and by \<open>new Error(v)\<close>.\<close>

fun to_string :: "host \<Rightarrow> json \<Rightarrow> string" where
  "to_string h JNull = ''null''"
| "to_string h (JBool b) = (if b then ''true'' else ''false'')"
| "to_string h (JNum r) = Number_toString h r"
| "to_string h (JStr s) = s"
| "to_string h (JArr xs) =
     join_comma (map (\<lambda>x. if x = JNull then [] else to_string h x) xs)"
| "to_string h (JObj kvs) = ''[object Object]''"

fun to_string_opt :: "host \<Rightarrow> json option \<Rightarrow> string" where
  "to_string_opt h None = ''undefined''"
| "to_string_opt h (Some v) = to_string h v"

text \<open>Object literal with a property left out when its value is \<open>undefined\<close>.\<close>

fun opt_prop :: "string \<Rightarrow> json option \<Rightarrow> (string \<times> json) list" where
  "opt_prop k None = []"
| "opt_prop k (Some v) = [(k, v)]"

text \<open>Spread \<open>{...o, k: v}\<close>: \<open>k\<close> keeps its place when \<open>o\<close> has it, else comes last.\<close>

fun set_prop :: "(string \<times> json) list \<Rightarrow> string \<Rightarrow> json \<Rightarrow> (string \<times> json) list" where
  "set_prop [] k v = [(k, v)]"
| "set_prop ((k', v') # kvs) k v =
     (if k' = k then (k, v) # kvs else (k', v') # set_prop kvs k v)"

fun own_props :: "json \<Rightarrow> (string \<times> json) list" where
  "own_props (JObj kvs) = kvs"
| "own_props v = []"

section \<open>Relay adapter: the stream's \<open>start\<close> callback\<close>

text \<open>
  The route with web search, the one that answers the page with its \<open>enableWebSearch\<close>
  flag. The state is the locals of \<open>start\<close>, the chunks enqueued on the controller
  (each the value given to \<open>emitEvent\<close>), whether the controller is closed, and how many
  times the clock was read.
\<close>

record adapter =
  currentMessage :: string
  lastEventType :: json
  webSearchResults :: "json list"
  enqueued :: "json list"
  closed :: bool
  ticks :: nat

definition emitEvent :: "json \<Rightarrow> adapter \<Rightarrow> adapter" where
  "emitEvent d st = st\<lparr>enqueued := enqueued st @ [d]\<rparr>"

definition close :: "adapter \<Rightarrow> adapter" where
  "close st = st\<lparr>closed := True\<rparr>"

definition tick :: "adapter \<Rightarrow> adapter" where
  "tick st = st\<lparr>ticks := Suc (ticks st)\<rparr>"

definition now_json :: "host \<Rightarrow> adapter \<Rightarrow> json" where
  "now_json h st = JNum (real_of_int (Date_now h (ticks st)))"

definition event_frame :: "json \<Rightarrow> json" where
  "event_frame v = JObj [(''type'', JStr ''event''), (''value'', v)]"

definition text_frame :: "json \<Rightarrow> json" where
  "text_frame v = JObj [(''type'', JStr ''text''), (''value'', v)]"

definition error_frame :: "json \<Rightarrow> json" where
  "error_frame v = JObj [(''type'', JStr ''error''), (''value'', v)]"

definition done_frame :: json where
  "done_frame = JObj [(''type'', JStr ''done'')]"

text \<open>One element of the normalized result list; reading a property of \<open>null\<close> throws.\<close>

definition normalize_result :: "json \<Rightarrow> json" where
  "normalize_result r = JObj
     [(''title'', or_else (get r ''title'') (JStr '''')),
      (''url'', or_else (get r ''url'') (JStr '''')),
      (''snippet'', or_else (get r ''snippet'') (JStr ''''))]"

fun normalize_results :: "host \<Rightarrow> json list \<Rightarrow> thrown + json list" where
  "normalize_results h [] = Inr []"
| "normalize_results h (r # rs) =
     (if r = JNull then Inl (ErrorObj (TypeError_message h (Some JNull) ''title''))
      else (case normalize_results h rs of
              Inl e \<Rightarrow> Inl e
            | Inr ns \<Rightarrow> Inr (normalize_result r # ns)))"

definition passthrough_kinds :: "string list" where
  "passthrough_kinds =
     [''response.created'', ''response.in_progress'', ''response.output_item.added'',
      ''response.content_part.added'', ''response.output_item.done'',
      ''response.content_part.done'']"

text \<open>The \<open>switch\<close> on \<open>event.type\<close>, for an event whose type is the string \<open>k\<close>.\<close>

definition dispatch :: "host \<Rightarrow> adapter \<Rightarrow> json \<Rightarrow> string \<Rightarrow> adapter flow" where
  "dispatch h st event k =
    (if k \<in> set passthrough_kinds then
       Continue (emitEvent (event_frame event) st)
     else if k = ''response.web_search_call.searching'' then
       Continue (tick (emitEvent (event_frame (JObj
         [(''type'', JStr ''web_search.started''), (''timestamp'', now_json h st)])) st))
     else if k = ''response.web_search_call.results'' then
       (case get event ''results'' of
          Some (JArr rs) \<Rightarrow>
            (let st1 = st\<lparr>webSearchResults := rs\<rparr> in
             case normalize_results h rs of
               Inl e \<Rightarrow> Throw (tick st1) e
             | Inr ns \<Rightarrow> Continue (tick (emitEvent (event_frame (JObj
                 [(''type'', JStr ''web_search.results''), (''timestamp'', now_json h st1),
                  (''results'', JArr ns)])) st1)))
        | _ \<Rightarrow> Continue st)
     else if k = ''response.web_search_call.completed'' then
       Continue (tick (emitEvent (event_frame (JObj
         [(''type'', JStr ''web_search.completed''), (''timestamp'', now_json h st),
          (''resultCount'', JNum (real (length (webSearchResults st))))])) st))
     else if k = ''response.web_search_call.failed'' then
       Continue (tick (emitEvent (event_frame (JObj
         [(''type'', JStr ''web_search.failed''), (''timestamp'', now_json h st),
          (''error'', or_else (get_opt (get event ''error'') ''message'')
                        (JStr ''Web search failed''))])) st))
     else if k = ''response.output_text.delta'' then
       (case get event ''delta'' of
          Some d \<Rightarrow>
            if truthy d then
              Continue (emitEvent (text_frame d)
                (st\<lparr>currentMessage := currentMessage st @ to_string h d\<rparr>))
            else Continue st
        | None \<Rightarrow> Continue st)
     else if k = ''response.output_text.done'' then
       Continue (tick (emitEvent (event_frame (JObj
         [(''type'', JStr ''response.output_text.done''), (''timestamp'', now_json h st),
          (''finalText'', JStr (currentMessage st))])) st))
     else if k = ''response.completed'' then
       Return (close (emitEvent done_frame (emitEvent (event_frame event) st)))
     else if k = ''response.failed'' then
       Throw st (ErrorObj (to_string h
         (or_else (get_opt (get event ''error'') ''message'') (JStr ''Response failed''))))
     else if k = ''response.incomplete'' then
       Return (close (emitEvent (error_frame (JObj
         ((''message'', JStr ''Response incomplete'') #
          opt_prop ''details'' (get_opt (get event ''response'') ''incomplete_details'')))) st))
     else Continue st)"

text \<open>The body of the \<open>for await\<close> loop for one upstream event.\<close>

definition on_event :: "host \<Rightarrow> adapter \<Rightarrow> json \<Rightarrow> adapter flow" where
  "on_event h st event =
    (if \<not> truthy event \<or> \<not> truthy_opt (get event ''type'') then Continue st
     else
       (let ty = the (get event ''type''); st1 = st\<lparr>lastEventType := ty\<rparr> in
        case ty of
          JStr k \<Rightarrow> dispatch h st1 event k
        | _ \<Rightarrow> Continue st1))"

text \<open>
  What the upstream iterator yields at each step: an event, or a rejection with the
  thrown value, which ends the iteration.
\<close>

datatype upstream = Event json | Reject thrown

fun for_await :: "host \<Rightarrow> adapter \<Rightarrow> upstream list \<Rightarrow> adapter flow" where
  "for_await h st [] = Continue st"
| "for_await h st (Reject x # rest) = Throw st x"
| "for_await h st (Event e # rest) =
     (case on_event h st e of
        Continue st' \<Rightarrow> for_await h st' rest
      | Return st' \<Rightarrow> Return st'
      | Throw st' x \<Rightarrow> Throw st' x)"

definition init_adapter :: adapter where
  "init_adapter = \<lparr>currentMessage = [], lastEventType = JStr [], webSearchResults = [],
     enqueued = [], closed = False, ticks = 0\<rparr>"

definition errorMessage :: "thrown \<Rightarrow> string" where
  "errorMessage x = (case x of ErrorObj m \<Rightarrow> m | NonError \<Rightarrow> ''Unknown error occurred'')"

definition finish :: "adapter flow \<Rightarrow> adapter" where
  "finish r =
    (case r of
       Continue st \<Rightarrow>
         close (if lastEventType st \<noteq> JStr ''response.completed''
                then emitEvent done_frame (emitEvent
                       (event_frame (JObj [(''type'', JStr ''response.completed'')])) st)
                else st)
     | Return st \<Rightarrow> st
     | Throw st x \<Rightarrow>
         close (emitEvent (error_frame (JObj [(''message'', JStr (errorMessage x))])) st))"

definition start :: "host \<Rightarrow> upstream list \<Rightarrow> adapter" where
  "start h session = finish (for_await h init_adapter session)"

section \<open>The route without web search\<close>

text \<open>
  The same callback as \<open>src/app/api/chat/route.ts\<close> has it, before web search was added:
  no web search cases, no timestamps, the \<open>response.output_text.done\<close> event passed on
  with \<open>finalText\<close> added to its own properties, and the failure message read from
  \<open>event.response?.error?.message\<close>.
\<close>

definition dispatch_plain :: "host \<Rightarrow> adapter \<Rightarrow> json \<Rightarrow> string \<Rightarrow> adapter flow" where
  "dispatch_plain h st event k =
    (if k \<in> set passthrough_kinds then
       Continue (emitEvent (event_frame event) st)
     else if k = ''response.output_text.delta'' then
       (case get event ''delta'' of
          Some d \<Rightarrow>
            if truthy d then
              Continue (emitEvent (text_frame d)
                (st\<lparr>currentMessage := currentMessage st @ to_string h d\<rparr>))
            else Continue st
        | None \<Rightarrow> Continue st)
     else if k = ''response.output_text.done'' then
       Continue (emitEvent (event_frame (JObj
         (set_prop (own_props event) ''finalText'' (JStr (currentMessage st))))) st)
     else if k = ''response.completed'' then
       Return (close (emitEvent done_frame (emitEvent (event_frame event) st)))
     else if k = ''response.failed'' then
       Throw st (ErrorObj (to_string h
         (or_else (get_opt (get_opt (get event ''response'') ''error'') ''message'')
            (JStr ''Response failed''))))
     else if k = ''response.incomplete'' then
       Return (close (emitEvent (error_frame (JObj
         ((''message'', JStr ''Response incomplete'') #
          opt_prop ''details'' (get_opt (get event ''response'') ''incomplete_details'')))) st))
     else Continue st)"

definition on_event_plain :: "host \<Rightarrow> adapter \<Rightarrow> json \<Rightarrow> adapter flow" where
  "on_event_plain h st event =
    (if \<not> truthy event \<or> \<not> truthy_opt (get event ''type'') then Continue st
     else
       (let ty = the (get event ''type''); st1 = st\<lparr>lastEventType := ty\<rparr> in
        case ty of
          JStr k \<Rightarrow> dispatch_plain h st1 event k
        | _ \<Rightarrow> Continue st1))"

fun for_await_plain :: "host \<Rightarrow> adapter \<Rightarrow> upstream list \<Rightarrow> adapter flow" where
  "for_await_plain h st [] = Continue st"
| "for_await_plain h st (Reject x # rest) = Throw st x"
| "for_await_plain h st (Event e # rest) =
     (case on_event_plain h st e of
        Continue st' \<Rightarrow> for_await_plain h st' rest
      | Return st' \<Rightarrow> Return st'
      | Throw st' x \<Rightarrow> Throw st' x)"

definition start_plain :: "host \<Rightarrow> upstream list \<Rightarrow> adapter" where
  "start_plain h session = finish (for_await_plain h init_adapter session)"

section \<open>Stream reader: \<open>handleSubmit\<close> of the page\<close>

record message =
  msg_id :: string
  role :: string
  content :: string

record APIEvent =
  etype :: "json option"
  timestamp :: int
  data :: json
  elapsedSinceLastEvent :: "int option"

text \<open>The React state of the page that \<open>handleSubmit\<close> writes.\<close>

record page =
  apiEvents :: "APIEvent list"
  messages :: "message list"
  input :: string
  isLoading :: bool
  error :: "string option"
  totalElapsedTime :: "int option"
  enableWebSearch :: bool
  webSearchResults_page :: json

text \<open>The state together with the locals of one call and the count of clock readings.\<close>

record request =
  ui :: page
  startTime :: int
  assistantMessage :: message
  lastEventTime :: int
  clock :: nat

text \<open>
  What \<open>fetch\<close> and the body's reader deliver: a rejection, or a response with its
  \<open>ok\<close> flag and, when it has a body, the results of the successive \<open>read()\<close> calls
  (the decoded text of a chunk, or a rejection) up to \<open>done\<close>.
\<close>

datatype body_read = Chunk string | ReadError thrown

datatype fetched = FetchRejected thrown | Response bool "body_read list option"

text \<open>
  Strings are lists of the characters below 256. Of these, \<open>trim\<close> strips the tab, the
  line feed, the vertical tab, the form feed, the carriage return, the space and the
  no-break space \<open>U+00A0\<close>.
\<close>

definition is_space :: "char \<Rightarrow> bool" where
  "is_space c = (c \<in> set [CHR 0x09, CHR 0x0A, CHR 0x0B, CHR 0x0C, CHR 0x0D, CHR '' '', CHR 0xA0])"

definition is_blank :: "string \<Rightarrow> bool" where
  "is_blank s = list_all is_space s"

text \<open>\<open>text.split('\n')\<close>.\<close>

fun split_nl :: "string \<Rightarrow> string list" where
  "split_nl [] = [[]]"
| "split_nl (c # cs) =
     (if c = CHR 0x0A then [] # split_nl cs
      else (case split_nl cs of [] \<Rightarrow> [[c]] | l # ls \<Rightarrow> (c # l) # ls))"

definition request_event :: "page \<Rightarrow> int \<Rightarrow> APIEvent" where
  "request_event pg t =
     \<lparr>etype = Some (JStr ''request''), timestamp = t,
      data = JObj
        [(''model'', JStr ''gpt-4o''),
         (''input'', JArr [JObj [(''role'', JStr ''user''), (''content'', JStr (input pg))]]),
         (''stream'', JBool True),
         (''text'', JObj [(''format'', JObj [(''type'', JStr ''text'')])]),
         (''temperature'', JNum (7 / 10)),
         (''tools'', JArr (if enableWebSearch pg
                           then [JObj [(''type'', JStr ''web_search_preview'')]] else []))],
      elapsedSinceLastEvent = None\<rparr>"

text \<open>\<open>case 'text'\<close>: the delta is appended and the message replaced by id.\<close>

definition on_text :: "host \<Rightarrow> request \<Rightarrow> json \<Rightarrow> request flow" where
  "on_text h rq parsed =
    (let am = (assistantMessage rq)
           \<lparr>content := content (assistantMessage rq) @ to_string_opt h (get parsed ''value'')\<rparr>
     in Continue (rq\<lparr>assistantMessage := am,
          ui := (ui rq)\<lparr>messages :=
            map (\<lambda>m. if msg_id m = msg_id am then am else m) (messages (ui rq))\<rparr>\<rparr>))"

text \<open>\<open>case 'event'\<close>, at the clock reading \<open>currentTime\<close>.\<close>

definition on_event_frame :: "host \<Rightarrow> request \<Rightarrow> int \<Rightarrow> json \<Rightarrow> request flow" where
  "on_event_frame h rq currentTime parsed =
    (case read_prop h (get parsed ''value'') ''type'' of
       Inl e \<Rightarrow> Throw rq e
     | Inr vty \<Rightarrow>
         (let v = the (get parsed ''value'');
              eventWithTiming =
                \<lparr>etype = vty, timestamp = currentTime, data = v,
                 elapsedSinceLastEvent = Some (currentTime - lastEventTime rq)\<rparr>;
              ui1 = (if vty = Some (JStr ''web_search.results'') \<and> truthy_opt (get v ''results'')
                     then (ui rq)\<lparr>webSearchResults_page := the (get v ''results'')\<rparr>
                     else ui rq);
              ui2 = ui1\<lparr>apiEvents := apiEvents ui1 @ [eventWithTiming]\<rparr>;
              ui3 = (if vty = Some (JStr ''response.completed'')
                     then ui2\<lparr>totalElapsedTime := Some (currentTime - startTime rq)\<rparr>
                     else ui2)
          in Continue (rq\<lparr>ui := ui3, lastEventTime := currentTime\<rparr>)))"

text \<open>\<open>case 'error'\<close>: \<open>throw new Error(parsed.value.message)\<close>.\<close>

definition on_error_frame :: "host \<Rightarrow> request \<Rightarrow> json \<Rightarrow> request flow" where
  "on_error_frame h rq parsed =
    (case read_prop h (get parsed ''value'') ''message'' of
       Inl e \<Rightarrow> Throw rq e
     | Inr m \<Rightarrow> Throw rq (ErrorObj (case m of None \<Rightarrow> [] | Some v \<Rightarrow> to_string h v)))"

text \<open>The \<open>switch\<close> on \<open>parsed.type\<close> for one parsed record, after the clock is read.\<close>

definition on_record :: "host \<Rightarrow> request \<Rightarrow> json \<Rightarrow> request flow" where
  "on_record h rq0 parsed =
    (let currentTime = Date_now h (clock rq0);
         rq = rq0\<lparr>clock := Suc (clock rq0)\<rparr>
     in
     case read_prop h (Some parsed) ''type'' of
       Inl e \<Rightarrow> Throw rq e
     | Inr ty \<Rightarrow>
         if ty = Some (JStr ''text'') then on_text h rq parsed
         else if ty = Some (JStr ''event'') then on_event_frame h rq currentTime parsed
         else if ty = Some (JStr ''error'') then on_error_frame h rq parsed
         else Continue rq)"

text \<open>The body of the loop over the lines of one chunk.\<close>

definition on_line :: "host \<Rightarrow> request \<Rightarrow> string \<Rightarrow> request flow" where
  "on_line h rq line =
    (if is_blank line \<or> take 6 line \<noteq> ''data: '' then Continue rq
     else
       (let d = drop 6 line in
        if d = ''[DONE]'' then Continue rq
        else (case JSON_parse h d of
                Inl m \<Rightarrow> Throw rq (ErrorObj m)
              | Inr parsed \<Rightarrow> on_record h rq parsed)))"

fun for_lines :: "host \<Rightarrow> request \<Rightarrow> string list \<Rightarrow> request flow" where
  "for_lines h rq [] = Continue rq"
| "for_lines h rq (l # ls) =
     (case on_line h rq l of
        Continue rq' \<Rightarrow> for_lines h rq' ls
      | Return rq' \<Rightarrow> Return rq'
      | Throw rq' x \<Rightarrow> Throw rq' x)"

text \<open>The \<open>while (true)\<close> loop over \<open>reader.read()\<close>, left by \<open>break\<close> on \<open>done\<close>.\<close>

fun read_loop :: "host \<Rightarrow> request \<Rightarrow> body_read list \<Rightarrow> request flow" where
  "read_loop h rq [] = Continue rq"
| "read_loop h rq (ReadError x # rest) = Throw rq x"
| "read_loop h rq (Chunk t # rest) =
     (case for_lines h rq (split_nl t) of
        Continue rq' \<Rightarrow> read_loop h rq' rest
      | Return rq' \<Rightarrow> Return rq'
      | Throw rq' x \<Rightarrow> Throw rq' x)"

text \<open>The \<open>try\<close> block, from \<open>fetch\<close> on.\<close>

definition try_block :: "host \<Rightarrow> fetched \<Rightarrow> request \<Rightarrow> request flow" where
  "try_block h resp rq =
    (case resp of
       FetchRejected x \<Rightarrow> Throw rq x
     | Response ok body \<Rightarrow>
         if \<not> ok then Throw rq (ErrorObj ''Failed to send message'')
         else (case body of
                 None \<Rightarrow> Throw rq (ErrorObj ''No response stream available'')
               | Some reads \<Rightarrow> read_loop h (rq\<lparr>lastEventTime := startTime rq\<rparr>) reads))"

text \<open>The text set as the error of the page: \<open>err instanceof Error ? err.message : ...\<close>.\<close>

definition banner :: "thrown \<Rightarrow> string" where
  "banner err = (case err of ErrorObj m \<Rightarrow> m | NonError \<Rightarrow> ''An error occurred'')"

definition catch_block :: "request \<Rightarrow> thrown \<Rightarrow> request" where
  "catch_block rq err =
     rq\<lparr>ui := (ui rq)
       \<lparr>error := Some (banner err),
        messages := filter (\<lambda>m. msg_id m \<noteq> msg_id (assistantMessage rq)) (messages (ui rq))\<rparr>\<rparr>"

definition finally_block :: "request \<Rightarrow> request" where
  "finally_block rq = rq\<lparr>ui := (ui rq)\<lparr>isLoading := False\<rparr>\<rparr>"

text \<open>
  The statements of \<open>handleSubmit\<close> before the \<open>try\<close>. The clock is read three
  times: for \<open>startTime\<close>, for the id of the user message, and for the id of the
  assistant message, which is one more than the reading.
\<close>

definition userMessage :: "host \<Rightarrow> page \<Rightarrow> message" where
  "userMessage h pg =
     \<lparr>msg_id = Number_toString h (real_of_int (Date_now h 1)), role = ''user'',
      content = input pg\<rparr>"

definition assistant_id :: "host \<Rightarrow> string" where
  "assistant_id h = Number_toString h (real_of_int (Date_now h 2 + 1))"

definition begin_request :: "host \<Rightarrow> page \<Rightarrow> request" where
  "begin_request h pg =
    (let pg1 = pg\<lparr>isLoading := True, error := None, totalElapsedTime := None,
                  webSearchResults_page := JArr []\<rparr>;
         t0 = Date_now h 0;
         pg2 = pg1\<lparr>messages := messages pg1 @ [userMessage h pg]\<rparr>;
         pg3 = pg2\<lparr>apiEvents := [request_event pg t0]\<rparr>;
         pg4 = pg3\<lparr>input := []\<rparr>;
         am = \<lparr>msg_id = assistant_id h, role = ''assistant'', content = []\<rparr>;
         pg5 = pg4\<lparr>messages := messages pg4 @ [am]\<rparr>
     in \<lparr>ui = pg5, startTime = t0, assistantMessage = am, lastEventTime = t0, clock = 3\<rparr>)"

definition run_request :: "host \<Rightarrow> fetched \<Rightarrow> request \<Rightarrow> request" where
  "run_request h resp rq =
     finally_block (case try_block h resp rq of
                      Continue rq' \<Rightarrow> rq'
                    | Return rq' \<Rightarrow> rq'
                    | Throw rq' err \<Rightarrow> catch_block rq' err)"

definition handleSubmit :: "host \<Rightarrow> fetched \<Rightarrow> page \<Rightarrow> page" where
  "handleSubmit h resp pg =
    (if is_blank (input pg) \<or> isLoading pg then pg
     else ui (run_request h resp (begin_request h pg)))"


section \<open>Notions used in the statements\<close>

text \<open>A terminal frame is a \<open>done\<close> or an \<open>error\<close> frame.\<close>

definition terminal :: "json \<Rightarrow> bool" where
  "terminal f = (get f ''type'' = Some (JStr ''done'') \<or> get f ''type'' = Some (JStr ''error''))"

text \<open>The last frame is terminal and no frame before it is.\<close>

definition one_terminal_last :: "json list \<Rightarrow> bool" where
  "one_terminal_last fs = (fs \<noteq> [] \<and> terminal (last fs) \<and> filter terminal (butlast fs) = [])"

text \<open>The invariant of the loop, by the way the loop is left.\<close>

fun flow_ok :: "adapter flow \<Rightarrow> bool" where
  "flow_ok (Continue st) = (filter terminal (enqueued st) = [] \<and> \<not> closed st
     \<and> lastEventType st \<noteq> JStr ''response.completed'')"
| "flow_ok (Throw st x) = (filter terminal (enqueued st) = [] \<and> \<not> closed st)"
| "flow_ok (Return st) = (one_terminal_last (enqueued st) \<and> closed st)"

text \<open>The \<open>case\<close> labels of the \<open>switch\<close> of the adapter.\<close>

definition recognized_kinds :: "string list" where
  "recognized_kinds = passthrough_kinds @
     [''response.web_search_call.searching'', ''response.web_search_call.results'',
      ''response.web_search_call.completed'', ''response.web_search_call.failed'',
      ''response.output_text.delta'', ''response.output_text.done'',
      ''response.completed'', ''response.failed'', ''response.incomplete'']"

text \<open>A state with the last event type blanked out.\<close>

definition forget :: "adapter \<Rightarrow> adapter" where
  "forget st = st\<lparr>lastEventType := JNull\<rparr>"


text \<open>Frames by their type, and the text that the \<open>text\<close> frames of a list carry.\<close>

definition is_text :: "json \<Rightarrow> bool" where
  "is_text f = (get f ''type'' = Some (JStr ''text''))"

definition is_event :: "json \<Rightarrow> bool" where
  "is_event f = (get f ''type'' = Some (JStr ''event''))"

definition text_of :: "host \<Rightarrow> json list \<Rightarrow> string" where
  "text_of h fs = concat (map (\<lambda>f. to_string_opt h (get f ''value'')) (filter is_text fs))"

text \<open>
  The records of a list of lines: what follows the marker on the lines that the loop
  does not skip. A record that does not parse is the \<open>SyntaxError\<close> it throws. What the
  reader receives from a body is, in order, parsed records and thrown values.
\<close>

definition payloads :: "string list \<Rightarrow> string list" where
  "payloads ls = filter (\<lambda>d. d \<noteq> ''[DONE]'')
     (map (drop 6) (filter (\<lambda>l. \<not> is_blank l \<and> take 6 l = ''data: '') ls))"

definition parse_record :: "host \<Rightarrow> string \<Rightarrow> thrown + json" where
  "parse_record h d = (case JSON_parse h d of Inl m \<Rightarrow> Inl (ErrorObj m) | Inr p \<Rightarrow> Inr p)"

fun received :: "host \<Rightarrow> body_read list \<Rightarrow> (thrown + json) list" where
  "received h [] = []"
| "received h (ReadError x # rest) = Inl x # received h rest"
| "received h (Chunk t # rest) = map (parse_record h) (payloads (split_nl t)) @ received h rest"

text \<open>The loops of the reader, over what is received.\<close>

fun for_parsed :: "host \<Rightarrow> request \<Rightarrow> (thrown + json) list \<Rightarrow> request flow" where
  "for_parsed h rq [] = Continue rq"
| "for_parsed h rq (Inl x # ps) = Throw rq x"
| "for_parsed h rq (Inr p # ps) =
     (case on_record h rq p of
        Continue rq' \<Rightarrow> for_parsed h rq' ps
      | Return rq' \<Rightarrow> Return rq'
      | Throw rq' x \<Rightarrow> Throw rq' x)"

fun state_of :: "'a flow \<Rightarrow> 'a" where
  "state_of (Continue s) = s"
| "state_of (Return s) = s"
| "state_of (Throw s x) = s"

fun body_reads :: "fetched \<Rightarrow> body_read list" where
  "body_reads (Response ok (Some reads)) = (if ok then reads else [])"
| "body_reads resp = []"

fun frames_of :: "(thrown + json) list \<Rightarrow> json list" where
  "frames_of [] = []"
| "frames_of (Inl x # ps) = frames_of ps"
| "frames_of (Inr f # ps) = f # frames_of ps"

definition logged :: "json list \<Rightarrow> APIEvent list \<Rightarrow> bool" where
  "logged fs es =
     (map (\<lambda>e. Some (data e)) es = map (\<lambda>f. get f ''value'') (filter is_event fs) \<and>
      map etype es = map (\<lambda>f. get_opt (get f ''value'') ''type'') (filter is_event fs))"

definition effect :: "host \<Rightarrow> request \<Rightarrow> request \<Rightarrow> json list \<Rightarrow> bool" where
  "effect h rq rq' fs =
     (content (assistantMessage rq') = content (assistantMessage rq) @ text_of h fs \<and>
      (\<exists>es. apiEvents (ui rq') = apiEvents (ui rq) @ es \<and> logged fs es))"



definition keeps :: "request \<Rightarrow> request \<Rightarrow> bool" where
  "keeps rq rq' =
     (startTime rq' = startTime rq \<and>
      msg_id (assistantMessage rq') = msg_id (assistantMessage rq) \<and>
      filter (\<lambda>m. msg_id m \<noteq> msg_id (assistantMessage rq)) (messages (ui rq')) =
        filter (\<lambda>m. msg_id m \<noteq> msg_id (assistantMessage rq)) (messages (ui rq)) \<and>
      error (ui rq') = error (ui rq) \<and> isLoading (ui rq') = isLoading (ui rq) \<and>
      input (ui rq') = input (ui rq) \<and> enableWebSearch (ui rq') = enableWebSearch (ui rq) \<and>
      clock rq \<le> clock rq')"

definition last_inv :: "request \<Rightarrow> bool" where
  "last_inv rq = (messages (ui rq) \<noteq> [] \<and> last (messages (ui rq)) = assistantMessage rq)"



text \<open>
  A frame that the reader handles without throwing, and the invariant of the adapter
  that ties the accumulated message to the \<open>text\<close> frames enqueued.
\<close>

definition readable :: "json \<Rightarrow> bool" where
  "readable f = (is_text f \<or> (is_event f \<and> truthy_opt (get f ''value'')) \<or>
     get f ''type'' = Some (JStr ''done''))"

definition adapter_inv :: "host \<Rightarrow> adapter \<Rightarrow> bool" where
  "adapter_inv h st =
     (currentMessage st = text_of h (enqueued st) \<and> list_all readable (enqueued st))"

text \<open>An upstream step that is not a web search results event.\<close>

fun no_results :: "upstream \<Rightarrow> bool" where
  "no_results (Event e) = (get e ''type'' \<noteq> Some (JStr ''response.web_search_call.results''))"
| "no_results (Reject x) = True"

text \<open>
  Two states of a request that agree on what does not depend on the clock: the text of
  the assistant message, the types and payloads of the log entries, the error and the
  search results. Two runs of the \<open>try\<close> block that end the same way in such states.
\<close>

definition sim :: "request \<Rightarrow> request \<Rightarrow> bool" where
  "sim a b =
     (content (assistantMessage a) = content (assistantMessage b) \<and>
      map etype (apiEvents (ui a)) = map etype (apiEvents (ui b)) \<and>
      map data (apiEvents (ui a)) = map data (apiEvents (ui b)) \<and>
      error (ui a) = error (ui b) \<and>
      webSearchResults_page (ui a) = webSearchResults_page (ui b))"

fun same_flow :: "request flow \<Rightarrow> request flow \<Rightarrow> bool" where
  "same_flow (Continue a) (Continue b) = sim a b"
| "same_flow (Return a) (Return b) = sim a b"
| "same_flow (Throw a x) (Throw b y) = (sim a b \<and> x = y)"
| "same_flow r s = False"

text \<open>
  A frame that the reader handles without throwing: not \<open>null\<close>, not an \<open>error\<close> frame,
  and when it is an \<open>event\<close> frame its value is neither \<open>undefined\<close> nor \<open>null\<close>. The
  frames handled in a request are those received before the first rejected read,
  record that does not parse, or frame that is not handled.
\<close>

definition passes :: "json \<Rightarrow> bool" where
  "passes p =
     (p \<noteq> JNull \<and> get p ''type'' \<noteq> Some (JStr ''error'') \<and>
      (if is_event p then (case get p ''value'' of None \<Rightarrow> False | Some v \<Rightarrow> v \<noteq> JNull)
       else True))"

fun handled :: "(thrown + json) list \<Rightarrow> json list" where
  "handled [] = []"
| "handled (Inl x # ps) = []"
| "handled (Inr p # ps) = (if passes p then p # handled ps else [])"

text \<open>
  The log entries for a list of frames handled from clock reading \<open>n\<close> on, when the last
  entry before them was stamped \<open>t\<close>: every frame takes one reading, and every \<open>event\<close>
  frame gives one entry.
\<close>

fun entries :: "host \<Rightarrow> nat \<Rightarrow> int \<Rightarrow> json list \<Rightarrow> APIEvent list" where
  "entries h n t [] = []"
| "entries h n t (f # fs) =
     (if is_event f
      then \<lparr>etype = get_opt (get f ''value'') ''type'', timestamp = Date_now h n,
            data = the (get f ''value''),
            elapsedSinceLastEvent = Some (Date_now h n - t)\<rparr> #
           entries h (Suc n) (Date_now h n) fs
      else entries h (Suc n) t fs)"

text \<open>The text of a body, whatever the reads it comes in.\<close>

fun body_text :: "body_read list \<Rightarrow> string" where
  "body_text [] = []"
| "body_text (Chunk t # rest) = t @ body_text rest"
| "body_text (ReadError x # rest) = body_text rest"


section \<open>A host and events for the examples\<close>

fun decimal :: "nat \<Rightarrow> string" where
  "decimal n =
     (if n < 10 then [char_of (48 + n)] else decimal (n div 10) @ [char_of (48 + n mod 10)])"

text \<open>
  A clock that advances by five milliseconds per reading, non-negative whole numbers
  printed in decimal, and a \<open>JSON.parse\<close> that knows the records of the examples.
\<close>

definition ev :: "string \<Rightarrow> json" where
  "ev k = JObj [(''type'', JStr k)]"

definition demo_records :: "(string \<times> json) list" where
  \<open>demo_records =
    [(''{"type":"text","value":"Hel"}'', text_frame (JStr ''Hel'')),
     (''{"type":"text","value":"lo"}'', text_frame (JStr ''lo'')),
     (''{"type":"event","value":{"type":"response.in_progress"}}'',
        event_frame (ev ''response.in_progress'')),
     (''{"type":"event","value":{"type":"response.completed"}}'',
        event_frame (ev ''response.completed'')),
     (''{"type":"error","value":{"message":"Response failed"}}'',
        error_frame (JObj [(''message'', JStr ''Response failed'')])),
     (''{"type":"event","value":{"type":"response.output_text.done","timestamp":1000,"finalText":"Hello"}}'',
        event_frame (JObj [(''type'', JStr ''response.output_text.done''),
          (''timestamp'', JNum 1000), (''finalText'', JStr ''Hello'')])),
     (''{"type":"error","value":{"message":""}}'',
        error_frame (JObj [(''message'', JStr [])])),
     (''{"type":"event","value":{"type":"web_search.results","timestamp":1000,"results":[{"title":"A","url":"https://a.example","snippet":"first"},{"title":"B","url":"https://b.example","snippet":""}]}}'',
        event_frame (JObj [(''type'', JStr ''web_search.results''), (''timestamp'', JNum 1000),
          (''results'', JArr
             [JObj [(''title'', JStr ''A''), (''url'', JStr ''https://a.example''),
                    (''snippet'', JStr ''first'')],
              JObj [(''title'', JStr ''B''), (''url'', JStr ''https://b.example''),
                    (''snippet'', JStr [])]])])),
     (''{"type":"done"}'', done_frame)]\<close>

definition demo_parse :: "string \<Rightarrow> string + json" where
  "demo_parse s =
     (case map_of demo_records s of Some f \<Rightarrow> Inr f | None \<Rightarrow> Inl ''Unexpected token'')"

definition demo_host :: host where
  "demo_host =
     \<lparr>Date_now = (\<lambda>n. 1000 + 5 * int n),
      Number_toString = (\<lambda>r. decimal (nat \<lfloor>r\<rfloor>)),
      TypeError_message = (\<lambda>v k. ''Cannot read properties of '' @
         (case v of None \<Rightarrow> ''undefined'' | Some _ \<Rightarrow> ''null'') @
         '' (reading '' @ k @ '')''),
      JSON_parse = demo_parse\<rparr>"

definition delta_ev :: "string \<Rightarrow> json" where
  "delta_ev d = JObj [(''type'', JStr ''response.output_text.delta''), (''delta'', JStr d)]"

definition incomplete_ev :: json where
  "incomplete_ev = JObj [(''type'', JStr ''response.incomplete''),
     (''response'', JObj [(''incomplete_details'',
        JObj [(''reason'', JStr ''max_output_tokens'')])])]"

text \<open>A record as the adapter encodes it, a page, and two bodies.\<close>

definition sse :: "string \<Rightarrow> string" where
  "sse d = ''data: '' @ d @ [CHR 0x0A, CHR 0x0A]"

definition demo_page :: page where
  "demo_page = \<lparr>apiEvents = [], messages = [], input = ''hi'', isLoading = False, error = None,
     totalElapsedTime = None, enableWebSearch = False, webSearchResults_page = JArr []\<rparr>"


definition good_body :: "body_read list" where
  \<open>good_body =
     [Chunk (sse ''{"type":"event","value":{"type":"response.in_progress"}}''),
      Chunk (sse ''{"type":"text","value":"Hel"}'' @ sse ''{"type":"text","value":"lo"}''),
      Chunk (sse ''{"type":"event","value":{"type":"response.completed"}}'' @
             sse ''{"type":"done"}'')]\<close>

text \<open>
  A session of two deltas, and one cut short after a delta, each with the body that
  carries its frames.
\<close>

definition hello_session :: "upstream list" where
  "hello_session =
     [Event (delta_ev ''Hel''), Event (delta_ev ''lo''),
      Event (ev ''response.output_text.done''), Event (ev ''response.completed'')]"

definition hello_body :: "body_read list" where
  \<open>hello_body =
     [Chunk (sse ''{"type":"text","value":"Hel"}''),
      Chunk (sse ''{"type":"text","value":"lo"}'' @
             sse ''{"type":"event","value":{"type":"response.output_text.done","timestamp":1000,"finalText":"Hello"}}''),
      Chunk (sse ''{"type":"event","value":{"type":"response.completed"}}'' @
             sse ''{"type":"done"}'')]\<close>

definition cut_session :: "upstream list" where
  "cut_session = [Event (ev ''response.in_progress''), Event (delta_ev ''Hel'')]"

definition cut_body :: "body_read list" where
  \<open>cut_body =
     [Chunk (sse ''{"type":"event","value":{"type":"response.in_progress"}}'' @
             sse ''{"type":"text","value":"Hel"}''),
      Chunk (sse ''{"type":"event","value":{"type":"response.completed"}}'' @
             sse ''{"type":"done"}'')]\<close>

text \<open>A results event with two results, the events before it, and a page with history.\<close>

definition results_ev :: json where
  "results_ev = JObj [(''type'', JStr ''response.web_search_call.results''),
     (''results'', JArr
        [JObj [(''title'', JStr ''A''), (''url'', JStr ''https://a.example''),
               (''snippet'', JStr ''first'')],
         JObj [(''title'', JStr ''B''), (''url'', JStr ''https://b.example'')]])]"

definition search_pre :: "upstream list" where
  "search_pre = [Event (ev ''response.web_search_call.searching'')]"

definition later_page :: page where
  "later_page = demo_page\<lparr>messages :=
     [\<lparr>msg_id = ''7'', role = ''user'', content = ''earlier''\<rparr>,
      \<lparr>msg_id = ''9'', role = ''assistant'', content = ''reply''\<rparr>]\<rparr>"



text \<open>
  The bytes of \<open>hello_body\<close> read in other pieces: cut inside the marker of the second
  record. A session that ends after two deltas, the body of its frames in whole records,
  and the same bytes cut inside the marker and inside the text of a record.
\<close>

definition hello_cut :: "body_read list" where
  \<open>hello_cut =
     [Chunk (sse ''{"type":"text","value":"Hel"}'' @ ''dat''),
      Chunk (''a: {"type":"text","value":"lo"}'' @ [CHR 0x0A, CHR 0x0A] @
             sse ''{"type":"event","value":{"type":"response.output_text.done","timestamp":1000,"finalText":"Hello"}}''),
      Chunk (sse ''{"type":"event","value":{"type":"response.completed"}}'' @
             sse ''{"type":"done"}'')]\<close>

definition net_session :: "upstream list" where
  "net_session =
     [Event (ev ''response.in_progress''), Event (delta_ev ''Hel''), Event (delta_ev ''lo'')]"

definition net_body :: "body_read list" where
  \<open>net_body =
     [Chunk (sse ''{"type":"event","value":{"type":"response.in_progress"}}'' @
             sse ''{"type":"text","value":"Hel"}''),
      Chunk (sse ''{"type":"text","value":"lo"}'' @
             sse ''{"type":"event","value":{"type":"response.completed"}}'' @
             sse ''{"type":"done"}'')]\<close>

definition net_cut_marker :: "body_read list" where
  \<open>net_cut_marker =
     [Chunk (sse ''{"type":"event","value":{"type":"response.in_progress"}}'' @
             sse ''{"type":"text","value":"Hel"}'' @ ''dat''),
      Chunk (''a: {"type":"text","value":"lo"}'' @ [CHR 0x0A, CHR 0x0A] @
             sse ''{"type":"event","value":{"type":"response.completed"}}'' @
             sse ''{"type":"done"}'')]\<close>

definition net_cut_text :: "body_read list" where
  \<open>net_cut_text =
     [Chunk (sse ''{"type":"event","value":{"type":"response.in_progress"}}'' @
             sse ''{"type":"text","value":"Hel"}'' @ ''data: {"type":"text","va''),
      Chunk (''lue":"lo"}'' @ [CHR 0x0A, CHR 0x0A] @
             sse ''{"type":"event","value":{"type":"response.completed"}}'' @
             sse ''{"type":"done"}'')]\<close>

text \<open>Results events with a \<open>null\<close> entry and with one result, and a page with other input.\<close>

definition null_results_ev :: json where
  "null_results_ev = JObj [(''type'', JStr ''response.web_search_call.results''),
     (''results'', JArr [JObj [(''title'', JStr ''A'')], JNull])]"

definition one_result_ev :: json where
  "one_result_ev = JObj [(''type'', JStr ''response.web_search_call.results''),
     (''results'', JArr [JObj [(''title'', JStr ''C'')]])]"

definition other_page :: page where
  "other_page = demo_page\<lparr>input := ''yo''\<rparr>"


definition search_page :: page where
  "search_page = demo_page\<lparr>enableWebSearch := True\<rparr>"

text \<open>
  The body of the frames of a session with one results event, in whole records, and the
  same bytes cut inside the marker of the first record.
\<close>

definition search_body :: "body_read list" where
  \<open>search_body =
     [Chunk (sse ''{"type":"event","value":{"type":"web_search.results","timestamp":1000,"results":[{"title":"A","url":"https://a.example","snippet":"first"},{"title":"B","url":"https://b.example","snippet":""}]}}''),
      Chunk (sse ''{"type":"event","value":{"type":"response.completed"}}'' @
             sse ''{"type":"done"}'')]\<close>

definition search_cut :: "body_read list" where
  \<open>search_cut =
     [Chunk ''dat'',
      Chunk (''a: {"type":"event","value":{"type":"web_search.results","timestamp":1000,"results":[{"title":"A","url":"https://a.example","snippet":"first"},{"title":"B","url":"https://b.example","snippet":""}]}}'' @
             [CHR 0x0A, CHR 0x0A] @
             sse ''{"type":"event","value":{"type":"response.completed"}}'' @
             sse ''{"type":"done"}'')]\<close>

section \<open>The adapter's loop\<close>

lemma terminal_simps [simp]:
  "\<not> terminal (event_frame v)" "\<not> terminal (text_frame v)"
  "terminal (error_frame v)" "terminal done_frame"
  by (simp_all add: terminal_def event_frame_def text_frame_def error_frame_def done_frame_def)

lemma one_terminal_last_snoc [simp]:
  "one_terminal_last (fs @ [t]) = (terminal t \<and> filter terminal fs = [])"
  "one_terminal_last (fs @ [a, t]) = (terminal t \<and> \<not> terminal a \<and> filter terminal fs = [])"
  by (auto simp: one_terminal_last_def butlast_append)

lemma dispatch_ok:
  assumes "filter terminal (enqueued st) = []" "\<not> closed st" "lastEventType st = JStr k"
  shows "flow_ok (dispatch h st event k)"
  using assms
  by (simp add: dispatch_def emitEvent_def close_def tick_def Let_def passthrough_kinds_def
      split: option.splits json.splits sum.splits)

lemma on_event_ok:
  assumes "filter terminal (enqueued st) = []" "\<not> closed st"
    "lastEventType st \<noteq> JStr ''response.completed''"
  shows "flow_ok (on_event h st e)"
  using assms by (auto simp: on_event_def Let_def dispatch_ok split: json.splits)

lemma for_await_ok:
  assumes "filter terminal (enqueued st) = []" "\<not> closed st"
    "lastEventType st \<noteq> JStr ''response.completed''"
  shows "flow_ok (for_await h st session)"
  using assms
proof (induction session arbitrary: st)
  case Nil
  then show ?case by simp
next
  case (Cons u us)
  show ?case
  proof (cases u)
    case (Reject x)
    with Cons.prems show ?thesis by simp
  next
    case (Event e)
    have ok: "flow_ok (on_event h st e)" using Cons.prems by (rule on_event_ok)
    show ?thesis
    proof (cases "on_event h st e")
      case (Continue st')
      with ok Event Cons.IH [of st'] show ?thesis by simp
    next
      case (Return st')
      with ok Event show ?thesis by simp
    next
      case (Throw st' x)
      with ok Event show ?thesis by simp
    qed
  qed
qed

lemma for_await_init_ok: "flow_ok (for_await h init_adapter session)"
  by (rule for_await_ok) (simp_all add: init_adapter_def)

lemma finish_ok:
  assumes "flow_ok r"
  shows "one_terminal_last (enqueued (finish r)) \<and> closed (finish r)"
  using assms
  by (cases r) (auto simp: finish_def emitEvent_def close_def)

lemma for_await_append:
  "for_await h st (xs @ ys) =
     (case for_await h st xs of
        Continue st' \<Rightarrow> for_await h st' ys
      | Return st' \<Rightarrow> Return st'
      | Throw st' x \<Rightarrow> Throw st' x)"
proof (induction xs arbitrary: st)
  case Nil
  show ?case by simp
next
  case (Cons u us)
  show ?case
  proof (cases u)
    case (Reject x)
    then show ?thesis by simp
  next
    case (Event e)
    then show ?thesis using Cons.IH by (simp split: flow.splits)
  qed
qed


section \<open>One terminal frame, and it is last\<close>

text \<open>
  Claim C1. For every upstream session, of events and rejections alike, the frames
  enqueued by \<open>start\<close> are not empty, the last of them is a terminal frame (\<open>done\<close> or
  \<open>error\<close>), it is the only terminal frame, and the controller is closed.
\<close>

theorem start_one_terminal_frame:
  "enqueued (start h session) \<noteq> [] \<and>
   terminal (last (enqueued (start h session))) \<and>
   length (filter terminal (enqueued (start h session))) = 1 \<and>
   closed (start h session)"
proof -
  let ?fs = "enqueued (start h session)"
  have ok: "one_terminal_last ?fs \<and> closed (start h session)"
    unfolding start_def by (rule finish_ok) (rule for_await_init_ok)
  then have ne: "?fs \<noteq> []" and t: "terminal (last ?fs)"
    and b: "filter terminal (butlast ?fs) = []"
    by (simp_all add: one_terminal_last_def)
  from ne have "?fs = butlast ?fs @ [last ?fs]" by simp
  then have "filter terminal ?fs = filter terminal (butlast ?fs @ [last ?fs])" by simp
  also have "\<dots> = [last ?fs]" using b t by simp
  finally have "length (filter terminal ?fs) = 1" by simp
  with ok ne t show ?thesis by simp
qed


theorem start_one_terminal_frame_witness:
  "enqueued (start demo_host
      [Event (ev ''response.created''), Event (delta_ev ''Hel''), Reject NonError]) =
     [event_frame (ev ''response.created''), text_frame (JStr ''Hel''),
      error_frame (JObj [(''message'', JStr ''Unknown error occurred'')])] \<and>
   terminal (last (enqueued (start demo_host
      [Event (ev ''response.created''), Event (delta_ev ''Hel''), Reject NonError]))) \<and>
   length (filter terminal (enqueued (start demo_host
      [Event (ev ''response.created''), Event (delta_ev ''Hel''), Reject NonError]))) = 1"
proof -
  have "enqueued (start demo_host
      [Event (ev ''response.created''), Event (delta_ev ''Hel''), Reject NonError]) =
     [event_frame (ev ''response.created''), text_frame (JStr ''Hel''),
      error_frame (JObj [(''message'', JStr ''Unknown error occurred'')])]"
    by code_simp
  then show ?thesis
    using start_one_terminal_frame [of demo_host
      "[Event (ev ''response.created''), Event (delta_ev ''Hel''), Reject NonError]"]
    by blast
qed

section \<open>The incomplete event\<close>

lemma on_event_incomplete:
  assumes "get e ''type'' = Some (JStr ''response.incomplete'')"
  shows "on_event h st e = Return (st\<lparr>lastEventType := JStr ''response.incomplete'',
      enqueued := enqueued st @ [error_frame (JObj ((''message'', JStr ''Response incomplete'') #
          opt_prop ''details'' (get_opt (get e ''response'') ''incomplete_details'')))],
      closed := True\<rparr>)"
proof -
  from assms have "truthy e" by (cases e) simp_all
  with assms show ?thesis
    by (simp add: on_event_def dispatch_def passthrough_kinds_def emitEvent_def close_def)
qed


text \<open>
  Claim C5, as the code has it. When the loop reaches an event of type
  \<open>response.incomplete\<close>, the adapter enqueues one \<open>error\<close> frame whose message is
  \<open>Response incomplete\<close>, with the details of the response when it has any, closes the
  controller, and enqueues nothing for the events that follow.
\<close>

theorem incomplete_closes:
  assumes "for_await h init_adapter pre = Continue st"
    and "get e ''type'' = Some (JStr ''response.incomplete'')"
  shows "enqueued (start h (pre @ Event e # post)) =
           enqueued st @ [error_frame (JObj ((''message'', JStr ''Response incomplete'') #
              opt_prop ''details'' (get_opt (get e ''response'') ''incomplete_details'')))]
         \<and> closed (start h (pre @ Event e # post))"
  by (simp add: start_def for_await_append assms on_event_incomplete finish_def)




theorem incomplete_closes_witness:
  "for_await demo_host init_adapter [Event (ev ''response.created'')] =
     Continue \<lparr>currentMessage = [], lastEventType = JStr ''response.created'',
       webSearchResults = [], enqueued = [event_frame (ev ''response.created'')],
       closed = False, ticks = 0\<rparr> \<and>
   get incomplete_ev ''type'' = Some (JStr ''response.incomplete'') \<and>
   enqueued (start demo_host
      ([Event (ev ''response.created'')] @ Event incomplete_ev # [Event (delta_ev ''lo'')])) =
     [event_frame (ev ''response.created''),
      error_frame (JObj [(''message'', JStr ''Response incomplete''),
        (''details'', JObj [(''reason'', JStr ''max_output_tokens'')])])] \<and>
   closed (start demo_host
      ([Event (ev ''response.created'')] @ Event incomplete_ev # [Event (delta_ev ''lo'')]))"
proof -
  have pre: "for_await demo_host init_adapter [Event (ev ''response.created'')] =
     Continue \<lparr>currentMessage = [], lastEventType = JStr ''response.created'',
       webSearchResults = [], enqueued = [event_frame (ev ''response.created'')],
       closed = False, ticks = 0\<rparr>"
    by code_simp
  have ty: "get incomplete_ev ''type'' = Some (JStr ''response.incomplete'')"
    by code_simp
  have details: "opt_prop ''details'' (get_opt (get incomplete_ev ''response'') ''incomplete_details'')
      = [(''details'', JObj [(''reason'', JStr ''max_output_tokens'')])]"
    by code_simp
  from incomplete_closes [OF pre ty, of "[Event (delta_ev ''lo'')]"] pre ty details
  show ?thesis by simp
qed

text \<open>
  The message of that frame is \<open>Response incomplete\<close>, not \<open>incomplete\<close>.
\<close>

theorem incomplete_message_counterexample:
  "enqueued (start demo_host [Event incomplete_ev]) =
     [error_frame (JObj [(''message'', JStr ''Response incomplete''),
        (''details'', JObj [(''reason'', JStr ''max_output_tokens'')])])] \<and>
   get_opt (get (last (enqueued (start demo_host [Event incomplete_ev]))) ''value'') ''message''
     \<noteq> Some (JStr ''incomplete'')"
  by code_simp

section \<open>Events of an unknown type\<close>

lemma on_event_update:
  "on_event h (st\<lparr>lastEventType := a\<rparr>) e =
     (if \<not> truthy e \<or> \<not> truthy_opt (get e ''type'') then Continue (st\<lparr>lastEventType := a\<rparr>)
      else on_event h st e)"
  by (simp add: on_event_def)

lemma on_event_lastEventType:
  "map_flow forget (on_event h (st\<lparr>lastEventType := a\<rparr>) e) = map_flow forget (on_event h st e)"
proof (cases "\<not> truthy e \<or> \<not> truthy_opt (get e ''type'')")
  case True
  then have "on_event h st e = Continue st" by (simp add: on_event_def)
  with True show ?thesis by (simp add: on_event_update forget_def)
next
  case False
  then show ?thesis by (simp add: on_event_update)
qed

lemma for_await_forget:
  assumes "forget st1 = forget st2"
  shows "map_flow forget (for_await h st1 xs) = map_flow forget (for_await h st2 xs)"
  using assms
proof (induction xs arbitrary: st1 st2)
  case Nil
  then show ?case by simp
next
  case (Cons u us)
  show ?case
  proof (cases u)
    case (Reject x)
    with Cons.prems show ?thesis by simp
  next
    case (Event e)
    from Cons.prems have "st1 = st2\<lparr>lastEventType := lastEventType st1\<rparr>"
      by (cases st1, cases st2) (simp add: forget_def)
    then have eq: "map_flow forget (on_event h st1 e) = map_flow forget (on_event h st2 e)"
      using on_event_lastEventType [where h = h and st = st2 and a = "lastEventType st1" and e = e]
      by simp
    show ?thesis
    proof (cases "on_event h st1 e")
      case (Continue a)
      with eq obtain b where b: "on_event h st2 e = Continue b" "forget a = forget b"
        by (cases "on_event h st2 e") simp_all
      from Cons.IH [OF b(2)] Continue b(1) Event show ?thesis by simp
    next
      case (Return a)
      with eq obtain b where "on_event h st2 e = Return b" "forget a = forget b"
        by (cases "on_event h st2 e") simp_all
      with Return Event show ?thesis by simp
    next
      case (Throw a x)
      with eq obtain b where "on_event h st2 e = Throw b x" "forget a = forget b"
        by (cases "on_event h st2 e") simp_all
      with Throw Event show ?thesis by simp
    qed
  qed
qed

lemma finish_forget:
  assumes "map_flow forget r1 = map_flow forget r2" "flow_ok r1" "flow_ok r2"
  shows "enqueued (finish r1) = enqueued (finish r2) \<and> closed (finish r1) = closed (finish r2)"
proof -
  have f: "enqueued a = enqueued b \<and> closed a = closed b" if "forget a = forget b" for a b
  proof -
    have "enqueued (forget a) = enqueued (forget b)" "closed (forget a) = closed (forget b)"
      using that by simp_all
    then show ?thesis by (simp add: forget_def)
  qed
  show ?thesis using assms
    by (cases r1; cases r2) (auto simp: finish_def emitEvent_def close_def dest: f)
qed

lemma on_event_unrecognized:
  assumes "get e ''type'' \<notin> set (map (\<lambda>k. Some (JStr k)) recognized_kinds)"
  shows "\<exists>a. on_event h st e = Continue (st\<lparr>lastEventType := a\<rparr>)"
proof (cases "\<not> truthy e \<or> \<not> truthy_opt (get e ''type'')")
  case True
  then have "on_event h st e = Continue (st\<lparr>lastEventType := lastEventType st\<rparr>)"
    by (simp add: on_event_def)
  then show ?thesis by blast
next
  case False
  then obtain ty where ty: "get e ''type'' = Some ty" by (cases "get e ''type''") auto
  show ?thesis
  proof (cases ty)
    case (JStr k)
    with ty assms have "k \<notin> set recognized_kinds" by auto
    then have "dispatch h (st\<lparr>lastEventType := ty\<rparr>) e k = Continue (st\<lparr>lastEventType := ty\<rparr>)"
      by (simp add: dispatch_def recognized_kinds_def)
    with False ty JStr show ?thesis by (auto simp: on_event_def)
  qed (insert False ty, auto simp: on_event_def)
qed


text \<open>
  Claim C8. An event whose type is none of the \<open>case\<close> labels of the adapter leaves the
  loop running and changes nothing but the remembered last event type; the frames
  enqueued for a session, and whether the controller is closed, are the same with the
  event as without it.
\<close>

theorem unrecognized_dropped:
  assumes "get e ''type'' \<notin> set (map (\<lambda>k. Some (JStr k)) recognized_kinds)"
  shows "(\<exists>a. on_event h st e = Continue (st\<lparr>lastEventType := a\<rparr>)) \<and>
         enqueued (start h (pre @ Event e # post)) = enqueued (start h (pre @ post)) \<and>
         closed (start h (pre @ Event e # post)) = closed (start h (pre @ post))"
proof -
  let ?with = "for_await h init_adapter (pre @ Event e # post)"
  let ?without = "for_await h init_adapter (pre @ post)"
  have "map_flow forget ?with = map_flow forget ?without"
  proof (cases "for_await h init_adapter pre")
    case (Continue st')
    from on_event_unrecognized [OF assms] obtain a
      where a: "on_event h st' e = Continue (st'\<lparr>lastEventType := a\<rparr>)" by blast
    have "forget (st'\<lparr>lastEventType := a\<rparr>) = forget st'" by (simp add: forget_def)
    then have "map_flow forget (for_await h (st'\<lparr>lastEventType := a\<rparr>) post) =
               map_flow forget (for_await h st' post)"
      by (rule for_await_forget)
    then show ?thesis using Continue a by (simp add: for_await_append)
  qed (simp_all add: for_await_append)
  then have "enqueued (finish ?with) = enqueued (finish ?without) \<and>
             closed (finish ?with) = closed (finish ?without)"
    by (rule finish_forget) (rule for_await_init_ok)+
  with on_event_unrecognized [OF assms] show ?thesis by (simp add: start_def)
qed


theorem unrecognized_dropped_witness:
  "get (ev ''response.reasoning.delta'') ''type'' \<notin>
     set (map (\<lambda>k. Some (JStr k)) recognized_kinds) \<and>
   enqueued (start demo_host
     ([Event (delta_ev ''Hel'')] @ Event (ev ''response.reasoning.delta'') #
      [Event (ev ''response.completed'')])) =
     [text_frame (JStr ''Hel''), event_frame (ev ''response.completed''), done_frame] \<and>
   enqueued (start demo_host ([Event (delta_ev ''Hel'')] @ [Event (ev ''response.completed'')])) =
     [text_frame (JStr ''Hel''), event_frame (ev ''response.completed''), done_frame]"
proof -
  have un: "get (ev ''response.reasoning.delta'') ''type'' \<notin>
      set (map (\<lambda>k. Some (JStr k)) recognized_kinds)"
    by code_simp
  have without: "enqueued (start demo_host
      ([Event (delta_ev ''Hel'')] @ [Event (ev ''response.completed'')])) =
     [text_frame (JStr ''Hel''), event_frame (ev ''response.completed''), done_frame]"
    by code_simp
  from unrecognized_dropped [OF un, of demo_host _ "[Event (delta_ev ''Hel'')]"
      "[Event (ev ''response.completed'')]"] un without
  show ?thesis by simp
qed

section \<open>The route without web search\<close>

lemma dispatch_plain_ok:
  assumes "filter terminal (enqueued st) = []" "\<not> closed st" "lastEventType st = JStr k"
  shows "flow_ok (dispatch_plain h st event k)"
  using assms
  by (simp add: dispatch_plain_def emitEvent_def close_def Let_def passthrough_kinds_def
      split: option.splits)

lemma on_event_plain_ok:
  assumes "filter terminal (enqueued st) = []" "\<not> closed st"
    "lastEventType st \<noteq> JStr ''response.completed''"
  shows "flow_ok (on_event_plain h st e)"
  using assms by (auto simp: on_event_plain_def Let_def dispatch_plain_ok split: json.splits)

lemma for_await_plain_ok:
  assumes "filter terminal (enqueued st) = []" "\<not> closed st"
    "lastEventType st \<noteq> JStr ''response.completed''"
  shows "flow_ok (for_await_plain h st session)"
  using assms
proof (induction session arbitrary: st)
  case Nil
  then show ?case by simp
next
  case (Cons u us)
  show ?case
  proof (cases u)
    case (Reject x)
    with Cons.prems show ?thesis by simp
  next
    case (Event e)
    have ok: "flow_ok (on_event_plain h st e)" using Cons.prems by (rule on_event_plain_ok)
    show ?thesis
    proof (cases "on_event_plain h st e")
      case (Continue st')
      with ok Event Cons.IH [of st'] show ?thesis by simp
    next
      case (Return st')
      with ok Event show ?thesis by simp
    next
      case (Throw st' x)
      with ok Event show ?thesis by simp
    qed
  qed
qed

text \<open>
  The older route, too, enqueues one \<open>done\<close> or \<open>error\<close> frame, as the last frame, and
  closes the controller, for every session.
\<close>

lemma start_plain_one_terminal_frame:
  "one_terminal_last (enqueued (start_plain h session)) \<and> closed (start_plain h session)"
  unfolding start_plain_def
  by (rule finish_ok, rule for_await_plain_ok) (simp_all add: init_adapter_def)

lemma start_plain_safety_net:
  assumes "for_await_plain h init_adapter session = Continue st"
  shows "enqueued (start_plain h session) =
           enqueued st @ [event_frame (JObj [(''type'', JStr ''response.completed'')]), done_frame] \<and>
         closed (start_plain h session)"
proof -
  have "flow_ok (for_await_plain h init_adapter session)"
    by (rule for_await_plain_ok) (simp_all add: init_adapter_def)
  with assms have "lastEventType st \<noteq> JStr ''response.completed''" by simp
  then show ?thesis
    by (simp_all add: start_plain_def assms finish_def emitEvent_def close_def)
qed

lemma on_event_plain_incomplete:
  assumes "get e ''type'' = Some (JStr ''response.incomplete'')"
  shows "on_event_plain h st e = Return (st\<lparr>lastEventType := JStr ''response.incomplete'',
      enqueued := enqueued st @ [error_frame (JObj ((''message'', JStr ''Response incomplete'') #
          opt_prop ''details'' (get_opt (get e ''response'') ''incomplete_details'')))],
      closed := True\<rparr>)"
proof -
  from assms have "truthy e" by (cases e) simp_all
  with assms show ?thesis
    by (simp add: on_event_plain_def dispatch_plain_def passthrough_kinds_def emitEvent_def
        close_def Let_def)
qed

section \<open>The reader's loops\<close>

lemma for_parsed_append:
  "for_parsed h rq (ps @ qs) =
     (case for_parsed h rq ps of
        Continue rq' \<Rightarrow> for_parsed h rq' qs
      | Return rq' \<Rightarrow> Return rq'
      | Throw rq' x \<Rightarrow> Throw rq' x)"
proof (induction ps arbitrary: rq)
  case Nil
  show ?case by simp
next
  case (Cons a ps)
  show ?case
  proof (cases a)
    case (Inl x)
    then show ?thesis by simp
  next
    case (Inr p)
    then show ?thesis using Cons.IH by (simp split: flow.split)
  qed
qed

lemma is_blank_data: "take 6 l = ''data: '' \<Longrightarrow> \<not> is_blank l"
proof
  assume t: "take 6 l = ''data: ''" and b: "is_blank l"
  from t have "CHR ''d'' \<in> set (take 6 l)" by simp
  then have "CHR ''d'' \<in> set l" by (rule in_set_takeD)
  with b have "is_space CHR ''d''" by (simp add: is_blank_def list_all_iff)
  then show False by (simp add: is_space_def)
qed

lemma on_line_parsed:
  "on_line h rq l = for_parsed h rq (map (parse_record h) (payloads [l]))"
  by (simp add: on_line_def payloads_def parse_record_def Let_def split: sum.split flow.split)

lemma for_lines_parsed:
  "for_lines h rq ls = for_parsed h rq (map (parse_record h) (payloads ls))"
proof (induction ls arbitrary: rq)
  case Nil
  show ?case by (simp add: payloads_def)
next
  case (Cons l ls)
  have "payloads (l # ls) = payloads [l] @ payloads ls" by (simp add: payloads_def)
  then show ?case
    by (simp add: for_parsed_append on_line_parsed [symmetric] Cons.IH split: flow.split)
qed

lemma read_loop_parsed: "read_loop h rq reads = for_parsed h rq (received h reads)"
proof (induction reads arbitrary: rq)
  case Nil
  show ?case by simp
next
  case (Cons r reads)
  show ?case
  proof (cases r)
    case (ReadError x)
    then show ?thesis by simp
  next
    case (Chunk t)
    then show ?thesis
      by (simp add: for_parsed_append for_lines_parsed Cons.IH split: flow.split)
  qed
qed

lemma for_parsed_lift:
  assumes step: "\<And>rq p. R rq (state_of (on_record h rq p))"
    and refl: "\<And>rq. R rq rq"
    and trans: "\<And>a b c. R a b \<Longrightarrow> R b c \<Longrightarrow> R a c"
  shows "R rq (state_of (for_parsed h rq ps))"
proof (induction ps arbitrary: rq)
  case Nil
  show ?case by (simp add: refl)
next
  case (Cons a ps)
  show ?case
  proof (cases a)
    case (Inl x)
    then show ?thesis by (simp add: refl)
  next
    case (Inr p)
    show ?thesis
    proof (cases "on_record h rq p")
      case (Continue rq')
      from step [of rq p] Continue have "R rq rq'" by simp
      moreover have "R rq' (state_of (for_parsed h rq' ps))" by (rule Cons.IH)
      ultimately show ?thesis using Inr Continue by (simp add: trans [of rq rq'])
    next
      case (Return rq')
      with step [of rq p] Inr show ?thesis by simp
    next
      case (Throw rq' x)
      with step [of rq p] Inr show ?thesis by simp
    qed
  qed
qed

lemma is_text_get: "is_text p \<Longrightarrow> read_prop h (Some p) ''type'' = Inr (Some (JStr ''text''))"
  by (cases p) (simp_all add: is_text_def)

lemma is_event_get: "is_event p \<Longrightarrow> read_prop h (Some p) ''type'' = Inr (Some (JStr ''event''))"
  by (cases p) (simp_all add: is_event_def)

lemma read_prop_type:
  "read_prop h (Some p) ''type'' = Inr ty \<Longrightarrow>
     (ty = Some (JStr ''text'')) = is_text p \<and> (ty = Some (JStr ''event'')) = is_event p"
  by (cases p) (auto simp: is_text_def is_event_def)

lemma get_opt_Some [simp]: "get_opt (Some v) k = get v k"
  by (cases v) simp_all

lemma read_prop_Inr:
  assumes "read_prop h ov k = Inr r"
  obtains v where "ov = Some v" "r = get v k"
proof (cases ov)
  case None
  with assms show ?thesis by simp
next
  case (Some v)
  with assms that show ?thesis by (cases v) simp_all
qed

lemma on_record_Throw:
  assumes "on_record h rq p = Throw rq' x"
  shows "rq' = rq\<lparr>clock := Suc (clock rq)\<rparr>"
  using assms
  by (auto simp: on_record_def on_text_def on_event_frame_def on_error_frame_def Let_def
      split: sum.splits if_splits)

lemma on_record_not_Return: "on_record h rq p \<noteq> Return rq'"
  by (auto simp: on_record_def on_text_def on_event_frame_def on_error_frame_def Let_def
      split: sum.splits if_splits)

lemma on_record_Continue_effect:
  assumes "on_record h rq p = Continue rq'"
  shows "effect h rq rq' [p]"
proof (cases "read_prop h (Some p) ''type''")
  case (Inl e)
  with assms show ?thesis by (simp add: on_record_def)
next
  case (Inr ty)
  note ty = read_prop_type [OF Inr]
  show ?thesis
  proof (cases "is_text p")
    case True
    with ty assms Inr show ?thesis
      by (auto simp: on_record_def on_text_def effect_def text_of_def logged_def is_text_def is_event_def Let_def)
  next
    case False
    note nt = this
    show ?thesis
    proof (cases "is_event p")
      case True
      with ty nt Inr assms
      have ef: "on_event_frame h (rq\<lparr>clock := Suc (clock rq)\<rparr>) (Date_now h (clock rq)) p =
          Continue rq'"
        by (simp add: on_record_def Let_def)
      then obtain vty where vty: "read_prop h (get p ''value'') ''type'' = Inr vty"
        by (cases "read_prop h (get p ''value'') ''type''") (simp_all add: on_event_frame_def)
      then obtain v where v: "get p ''value'' = Some v" "vty = get v ''type''"
        by (rule read_prop_Inr)
      from ef vty v True show ?thesis
        by (auto simp: on_event_frame_def effect_def text_of_def logged_def Let_def is_text_def
            is_event_def)
    next
      case False
      with ty nt assms Inr show ?thesis
        by (auto simp: on_record_def on_error_frame_def effect_def text_of_def logged_def Let_def
            split: sum.splits if_splits)
    qed
  qed
qed

lemma on_error_frame_not_Continue: "on_error_frame h rq p \<noteq> Continue rq'"
  by (simp add: on_error_frame_def split: sum.split)

lemma on_record_cases [case_names Throw Text Event Other]:
  obtains
    (Throw) x where "on_record h rq p = Throw (rq\<lparr>clock := Suc (clock rq)\<rparr>) x"
  | (Text) "on_record h rq p = on_text h (rq\<lparr>clock := Suc (clock rq)\<rparr>) p"
  | (Event) v where "get p ''value'' = Some v"
      "on_record h rq p =
         on_event_frame h (rq\<lparr>clock := Suc (clock rq)\<rparr>) (Date_now h (clock rq)) p"
      "read_prop h (get p ''value'') ''type'' = Inr (get v ''type'')"
  | (Other) "on_record h rq p = Continue (rq\<lparr>clock := Suc (clock rq)\<rparr>)"
proof (cases "on_record h rq p")
  case (Throw rq' x)
  with on_record_Throw [OF Throw] that(1) show ?thesis by simp
next
  case (Return rq')
  then show ?thesis by (simp add: on_record_not_Return)
next
  case (Continue rq')
  then obtain ty where ty: "read_prop h (Some p) ''type'' = Inr ty"
    by (cases "read_prop h (Some p) ''type''") (simp_all add: on_record_def)
  show ?thesis
  proof (cases "ty = Some (JStr ''text'')")
    case True
    with ty that(2) show ?thesis by (simp add: on_record_def)
  next
    case nt: False
    show ?thesis
    proof (cases "ty = Some (JStr ''event'')")
      case True
      with ty have eq: "on_record h rq p =
         on_event_frame h (rq\<lparr>clock := Suc (clock rq)\<rparr>) (Date_now h (clock rq)) p"
        by (simp add: on_record_def Let_def)
      with Continue obtain vty where vty: "read_prop h (get p ''value'') ''type'' = Inr vty"
        by (cases "read_prop h (get p ''value'') ''type''") (simp_all add: on_event_frame_def)
      then obtain v where "get p ''value'' = Some v" "vty = get v ''type''"
        by (rule read_prop_Inr)
      with eq vty that(3) show ?thesis by simp
    next
      case False
      with nt ty Continue have "ty \<noteq> Some (JStr ''error'')"
        by (auto simp: on_record_def on_error_frame_not_Continue Let_def)
      with False nt ty that(4) show ?thesis by (simp add: on_record_def)
    qed
  qed
qed


lemma keeps_refl: "keeps rq rq"
  by (simp add: keeps_def)

lemma keeps_trans: "keeps a b \<Longrightarrow> keeps b c \<Longrightarrow> keeps a c"
  by (simp add: keeps_def)

lemma filter_map_same_id:
  "msg_id am = i \<Longrightarrow>
   filter (\<lambda>m. msg_id m \<noteq> i) (map (\<lambda>m. if msg_id m = i then am else m) ms) =
   filter (\<lambda>m. msg_id m \<noteq> i) ms"
  by (induction ms) auto

lemma on_record_keeps: "keeps rq (state_of (on_record h rq p))"
proof (cases rule: on_record_cases [where h = h and rq = rq and p = p])
  case (Throw x)
  then show ?thesis by (simp add: keeps_def)
next
  case Text
  then show ?thesis by (simp add: keeps_def on_text_def Let_def filter_map_same_id)
next
  case (Event v)
  then show ?thesis by (simp add: keeps_def on_event_frame_def Let_def)
next
  case Other
  then show ?thesis by (simp add: keeps_def)
qed

lemma on_record_last_inv:
  assumes "last_inv rq"
  shows "last_inv (state_of (on_record h rq p))"
proof (cases rule: on_record_cases [where h = h and rq = rq and p = p])
  case (Throw x)
  with assms show ?thesis by (simp add: last_inv_def)
next
  case Text
  with assms show ?thesis by (simp add: last_inv_def on_text_def Let_def last_map)
next
  case (Event v)
  with assms show ?thesis by (simp add: last_inv_def on_event_frame_def Let_def)
next
  case Other
  with assms show ?thesis by (simp add: last_inv_def)
qed




lemma logged_Nil: "logged [] []"
  by (simp add: logged_def)

lemma logged_append: "logged fs es \<Longrightarrow> logged gs es' \<Longrightarrow> logged (fs @ gs) (es @ es')"
  by (simp add: logged_def)

lemma text_of_append: "text_of h (fs @ gs) = text_of h fs @ text_of h gs"
  by (simp add: text_of_def)

lemma effect_refl: "effect h rq rq []"
  by (simp add: effect_def text_of_def logged_Nil)

lemma effect_tick: "effect h rq (rq\<lparr>clock := n\<rparr>) []"
  by (simp add: effect_def text_of_def logged_Nil)

lemma effect_trans:
  assumes "effect h a b fs" "effect h b c gs"
  shows "effect h a c (fs @ gs)"
proof -
  from assms(1) obtain es where es: "apiEvents (ui b) = apiEvents (ui a) @ es" "logged fs es"
    and c1: "content (assistantMessage b) = content (assistantMessage a) @ text_of h fs"
    by (auto simp: effect_def)
  from assms(2) obtain es' where es': "apiEvents (ui c) = apiEvents (ui b) @ es'" "logged gs es'"
    and c2: "content (assistantMessage c) = content (assistantMessage b) @ text_of h gs"
    by (auto simp: effect_def)
  have "apiEvents (ui c) = apiEvents (ui a) @ (es @ es')" using es(1) es'(1) by simp
  moreover have "logged (fs @ gs) (es @ es')" using es(2) es'(2) by (rule logged_append)
  moreover have "content (assistantMessage c) = content (assistantMessage a) @ text_of h (fs @ gs)"
    using c1 c2 by (simp add: text_of_append)
  ultimately show ?thesis unfolding effect_def by blast
qed

lemma for_parsed_effect:
  "\<exists>fs. prefix fs (frames_of ps) \<and> effect h rq (state_of (for_parsed h rq ps)) fs \<and>
        (\<forall>rq'. for_parsed h rq ps = Continue rq' \<longrightarrow> fs = frames_of ps)"
proof (induction ps arbitrary: rq)
  case Nil
  have "prefix [] (frames_of []) \<and> effect h rq (state_of (for_parsed h rq [])) [] \<and>
        (\<forall>rq'. for_parsed h rq [] = Continue rq' \<longrightarrow> [] = frames_of [])"
    by (simp add: effect_refl)
  then show ?case by blast
next
  case (Cons a ps)
  show ?case
  proof (cases a)
    case (Inl x)
    then have "prefix [] (frames_of (a # ps)) \<and>
        effect h rq (state_of (for_parsed h rq (a # ps))) [] \<and>
        (\<forall>rq'. for_parsed h rq (a # ps) = Continue rq' \<longrightarrow> [] = frames_of (a # ps))"
      by (simp add: effect_refl)
    then show ?thesis by blast
  next
    case (Inr p)
    show ?thesis
    proof (cases "on_record h rq p")
      case (Continue rq1)
      then have e1: "effect h rq rq1 [p]" by (rule on_record_Continue_effect)
      from Cons.IH [of rq1] obtain fs where fs: "prefix fs (frames_of ps)"
        "effect h rq1 (state_of (for_parsed h rq1 ps)) fs"
        "\<forall>rq'. for_parsed h rq1 ps = Continue rq' \<longrightarrow> fs = frames_of ps"
        by blast
      from effect_trans [OF e1 fs(2)]
      have "effect h rq (state_of (for_parsed h rq1 ps)) (p # fs)" by simp
      with fs(1) fs(3) Inr Continue
      have "prefix (p # fs) (frames_of (a # ps)) \<and>
        effect h rq (state_of (for_parsed h rq (a # ps))) (p # fs) \<and>
        (\<forall>rq'. for_parsed h rq (a # ps) = Continue rq' \<longrightarrow> p # fs = frames_of (a # ps))"
        by simp
      then show ?thesis by blast
    next
      case (Return rq1)
      then show ?thesis by (simp add: on_record_not_Return)
    next
      case (Throw rq1 x)
      from on_record_Throw [OF Throw] have "effect h rq rq1 []" by (simp add: effect_tick)
      with Inr Throw
      have "prefix [] (frames_of (a # ps)) \<and>
        effect h rq (state_of (for_parsed h rq (a # ps))) [] \<and>
        (\<forall>rq'. for_parsed h rq (a # ps) = Continue rq' \<longrightarrow> [] = frames_of (a # ps))"
        by simp
      then show ?thesis by blast
    qed
  qed
qed

lemma for_parsed_not_Return: "for_parsed h rq ps \<noteq> Return rq'"
proof (induction ps arbitrary: rq)
  case Nil
  show ?case by simp
next
  case (Cons a ps)
  show ?case
  proof (cases a)
    case (Inl x)
    then show ?thesis by simp
  next
    case (Inr p)
    then show ?thesis using Cons.IH
      by (cases "on_record h rq p") (simp_all add: on_record_not_Return)
  qed
qed

lemma for_parsed_keeps: "keeps rq (state_of (for_parsed h rq ps))"
proof (rule for_parsed_lift [where R = keeps])
  show "keeps a (state_of (on_record h a p))" for a p by (rule on_record_keeps)
  show "keeps a a" for a by (rule keeps_refl)
  show "keeps a c" if "keeps a b" "keeps b c" for a b c using that by (rule keeps_trans)
qed

lemma for_parsed_last_inv:
  assumes "last_inv rq"
  shows "last_inv (state_of (for_parsed h rq ps))"
proof -
  have "last_inv rq \<longrightarrow> last_inv (state_of (for_parsed h rq ps))"
  proof (rule for_parsed_lift [where R = "\<lambda>a b. last_inv a \<longrightarrow> last_inv b"])
    show "last_inv a \<longrightarrow> last_inv (state_of (on_record h a p))" for a p
      by (simp add: on_record_last_inv)
    show "last_inv a \<longrightarrow> last_inv a" for a by simp
    show "last_inv a \<longrightarrow> last_inv c"
      if "last_inv a \<longrightarrow> last_inv b" "last_inv b \<longrightarrow> last_inv c" for a b c
      using that by blast
  qed
  with assms show ?thesis by simp
qed



lemma begin_request_simps:
  "startTime (begin_request h pg) = Date_now h 0"
  "lastEventTime (begin_request h pg) = Date_now h 0"
  "clock (begin_request h pg) = 3"
  "apiEvents (ui (begin_request h pg)) = [request_event pg (Date_now h 0)]"
  "messages (ui (begin_request h pg)) =
     messages pg @ [userMessage h pg, assistantMessage (begin_request h pg)]"
  "msg_id (assistantMessage (begin_request h pg)) = assistant_id h"
  "content (assistantMessage (begin_request h pg)) = []"
  "error (ui (begin_request h pg)) = None"
  by (simp_all add: begin_request_def Let_def)

lemma begin_request_last_inv: "last_inv (begin_request h pg)"
  by (simp add: last_inv_def begin_request_simps)



lemma try_block_parsed:
  assumes "lastEventTime rq = startTime rq"
  shows "try_block h (Response True (Some reads)) rq = for_parsed h rq (received h reads)"
proof -
  have "rq\<lparr>lastEventTime := startTime rq\<rparr> = rq" using assms by simp
  then show ?thesis by (simp add: try_block_def read_loop_parsed)
qed

lemma try_block_state:
  assumes "lastEventTime rq = startTime rq"
  shows "state_of (try_block h resp rq) = state_of (for_parsed h rq (received h (body_reads resp)))"
proof (cases resp)
  case (FetchRejected x)
  then show ?thesis by (simp add: try_block_def)
next
  case (Response ok body)
  show ?thesis
  proof (cases "ok \<and> body \<noteq> None")
    case True
    then obtain reads where "body = Some reads" by auto
    with True Response assms show ?thesis by (simp add: try_block_parsed)
  next
    case False
    with Response show ?thesis by (cases body) (auto simp: try_block_def)
  qed
qed

lemma try_block_Continue:
  assumes "lastEventTime rq = startTime rq" "try_block h resp rq = Continue rq'"
  shows "for_parsed h rq (received h (body_reads resp)) = Continue rq'"
proof (cases resp)
  case (FetchRejected x)
  with assms(2) show ?thesis by (simp add: try_block_def)
next
  case (Response ok body)
  with assms(2) obtain reads where "ok" "body = Some reads"
    by (cases body) (auto simp: try_block_def split: if_splits)
  with Response assms show ?thesis by (simp add: try_block_parsed)
qed

lemma try_block_not_Return:
  assumes "lastEventTime rq = startTime rq"
  shows "try_block h resp rq \<noteq> Return rq'"
proof (cases resp)
  case (FetchRejected x)
  then show ?thesis by (simp add: try_block_def)
next
  case (Response ok body)
  then show ?thesis using assms
    by (cases body) (auto simp: try_block_def read_loop_parsed for_parsed_not_Return)
qed

text \<open>What handleSubmit leaves, by the way the try block ends.\<close>

lemma handleSubmit_Continue:
  assumes "\<not> is_blank (input pg)" "\<not> isLoading pg"
    and "try_block h resp (begin_request h pg) = Continue rq"
  shows "handleSubmit h resp pg = (ui rq)\<lparr>isLoading := False\<rparr>"
  using assms by (simp add: handleSubmit_def run_request_def finally_block_def)

lemma handleSubmit_Throw:
  assumes "\<not> is_blank (input pg)" "\<not> isLoading pg"
    and "try_block h resp (begin_request h pg) = Throw rq x"
  shows "handleSubmit h resp pg =
     (ui rq)\<lparr>error := Some (banner x),
       messages := filter (\<lambda>m. msg_id m \<noteq> msg_id (assistantMessage rq)) (messages (ui rq)),
       isLoading := False\<rparr>"
  using assms
  by (simp add: handleSubmit_def run_request_def finally_block_def catch_block_def)


lemma handleSubmit_apiEvents:
  assumes "\<not> is_blank (input pg)" "\<not> isLoading pg"
  shows "apiEvents (handleSubmit h resp pg) =
         apiEvents (ui (state_of (try_block h resp (begin_request h pg))))"
proof (cases "try_block h resp (begin_request h pg)")
  case (Continue rq)
  with assms show ?thesis by (simp add: handleSubmit_Continue)
next
  case (Return rq)
  then show ?thesis by (simp add: try_block_not_Return begin_request_simps)
next
  case (Throw rq x)
  with assms show ?thesis by (simp add: handleSubmit_Throw)
qed

lemma handleSubmit_error_None:
  assumes "\<not> is_blank (input pg)" "\<not> isLoading pg"
    and "error (handleSubmit h resp pg) = None"
  shows "\<exists>rq. try_block h resp (begin_request h pg) = Continue rq"
proof (cases "try_block h resp (begin_request h pg)")
  case (Continue rq)
  then show ?thesis by simp
next
  case (Return rq)
  then show ?thesis by (simp add: try_block_not_Return begin_request_simps)
next
  case (Throw rq x)
  with assms show ?thesis by (simp add: handleSubmit_Throw)
qed

text \<open>The frames handled and the entries they leave in the log.\<close>

lemma on_record_passes:
  assumes "passes p"
  shows "\<exists>rq'. on_record h rq p = Continue rq' \<and> clock rq' = Suc (clock rq) \<and>
     apiEvents (ui rq') = apiEvents (ui rq) @ entries h (clock rq) (lastEventTime rq) [p] \<and>
     lastEventTime rq' = (if is_event p then Date_now h (clock rq) else lastEventTime rq)"
proof -
  from assms have nn: "p \<noteq> JNull" and ne: "get p ''type'' \<noteq> Some (JStr ''error'')"
    by (simp_all add: passes_def)
  from nn have ty: "read_prop h (Some p) ''type'' = Inr (get p ''type'')" by (cases p) simp_all
  show ?thesis
  proof (cases "is_event p")
    case True
    with assms obtain v where v: "get p ''value'' = Some v" "v \<noteq> JNull"
      by (cases "get p ''value''") (simp_all add: passes_def)
    then have "read_prop h (get p ''value'') ''type'' = Inr (get v ''type'')"
      by (cases v) simp_all
    with True ty v show ?thesis
      by (simp add: on_record_def on_event_frame_def is_event_def Let_def)
  next
    case False
    show ?thesis
    proof (cases "is_text p")
      case True
      with ty False show ?thesis
        by (simp add: on_record_def on_text_def is_text_def Let_def)
    next
      case nt: False
      with ty False ne show ?thesis
        by (simp add: on_record_def is_text_def is_event_def)
    qed
  qed
qed

lemma on_record_fails:
  assumes "\<not> passes p"
  shows "\<exists>x. on_record h rq p = Throw (rq\<lparr>clock := Suc (clock rq)\<rparr>) x"
proof (cases "on_record h rq p")
  case (Continue rq')
  have "passes p"
  proof (cases "p = JNull")
    case True
    with Continue show ?thesis by (simp add: on_record_def)
  next
    case False
    then have ty: "read_prop h (Some p) ''type'' = Inr (get p ''type'')" by (cases p) simp_all
    have ne: "get p ''type'' \<noteq> Some (JStr ''error'')"
    proof
      assume "get p ''type'' = Some (JStr ''error'')"
      with ty Continue show False
        by (simp add: on_record_def on_error_frame_not_Continue)
    qed
    show ?thesis
    proof (cases "is_event p")
      case True
      with ty Continue
      have "on_event_frame h (rq\<lparr>clock := Suc (clock rq)\<rparr>) (Date_now h (clock rq)) p =
          Continue rq'"
        by (simp add: on_record_def is_event_def Let_def)
      then obtain vty where "read_prop h (get p ''value'') ''type'' = Inr vty"
        by (cases "read_prop h (get p ''value'') ''type''") (simp_all add: on_event_frame_def)
      then obtain v where "get p ''value'' = Some v" "v \<noteq> JNull"
        by (cases "get p ''value''"; cases "the (get p ''value'')") auto
      with False ne True show ?thesis by (simp add: passes_def)
    next
      case ev: False
      with False ne show ?thesis by (simp add: passes_def)
    qed
  qed
  with assms show ?thesis by simp
next
  case (Return rq')
  then show ?thesis by (simp add: on_record_not_Return)
next
  case (Throw rq' x)
  with on_record_Throw [OF Throw] show ?thesis by simp
qed

lemma for_parsed_handled:
  "apiEvents (ui (state_of (for_parsed h rq ps))) =
     apiEvents (ui rq) @ entries h (clock rq) (lastEventTime rq) (handled ps)"
proof (induction ps arbitrary: rq)
  case Nil
  show ?case by simp
next
  case (Cons a ps)
  show ?case
  proof (cases a)
    case (Inl x)
    then show ?thesis by simp
  next
    case (Inr p)
    show ?thesis
    proof (cases "passes p")
      case True
      from on_record_passes [OF True, of h rq] obtain rq1 where
        r: "on_record h rq p = Continue rq1" "clock rq1 = Suc (clock rq)"
          "apiEvents (ui rq1) = apiEvents (ui rq) @ entries h (clock rq) (lastEventTime rq) [p]"
          "lastEventTime rq1 = (if is_event p then Date_now h (clock rq) else lastEventTime rq)"
        by blast
      from Cons.IH [of rq1] r Inr True show ?thesis by simp
    next
      case False
      from on_record_fails [OF False, of h rq] obtain x
        where "on_record h rq p = Throw (rq\<lparr>clock := Suc (clock rq)\<rparr>) x" by blast
      with Inr False show ?thesis by simp
    qed
  qed
qed







lemma handleSubmit_log:
  assumes "\<not> is_blank (input pg)" "\<not> isLoading pg"
  shows "apiEvents (handleSubmit h resp pg) =
     request_event pg (Date_now h 0) #
     entries h 3 (Date_now h 0) (handled (received h (body_reads resp)))"
proof -
  let ?init = "begin_request h pg"
  let ?ps = "received h (body_reads resp)"
  have st: "state_of (try_block h resp ?init) = state_of (for_parsed h ?init ?ps)"
    by (simp add: try_block_state begin_request_simps)
  have "apiEvents (handleSubmit h resp pg) = apiEvents (ui (state_of (for_parsed h ?init ?ps)))"
    using assms by (simp add: handleSubmit_apiEvents st)
  then show ?thesis
    using for_parsed_handled [of h ?init ?ps] by (simp add: begin_request_simps)
qed

section \<open>A failed request\<close>

lemma failure_kinds:
  "try_block h (Response False body) rq = Throw rq (ErrorObj ''Failed to send message'')"
  "try_block h (Response True None) rq = Throw rq (ErrorObj ''No response stream available'')"
  "try_block h (FetchRejected x) rq = Throw rq x"
  by (simp_all add: try_block_def)

lemma on_line_malformed:
  assumes "take 6 l = ''data: ''" "drop 6 l \<noteq> ''[DONE]''" "JSON_parse h (drop 6 l) = Inl m"
  shows "on_line h rq l = Throw rq (ErrorObj m)"
  using assms is_blank_data [OF assms(1)] by (simp add: on_line_def)

lemma on_record_error_frame:
  assumes "get p ''type'' = Some (JStr ''error'')"
  shows "\<exists>x. on_record h rq p = Throw (rq\<lparr>clock := Suc (clock rq)\<rparr>) x \<and>
     (\<forall>v m. get p ''value'' = Some v \<and> get v ''message'' = Some (JStr m) \<longrightarrow> x = ErrorObj m)"
proof -
  from assms have "read_prop h (Some p) ''type'' = Inr (Some (JStr ''error''))"
    by (cases p) simp_all
  then have eq: "on_record h rq p = on_error_frame h (rq\<lparr>clock := Suc (clock rq)\<rparr>) p"
    by (simp add: on_record_def)
  show ?thesis
  proof (cases "read_prop h (get p ''value'') ''message''")
    case (Inl e)
    then have "\<And>v m. get p ''value'' = Some v \<Longrightarrow> get v ''message'' \<noteq> Some (JStr m)"
    proof -
      fix v m assume v: "get p ''value'' = Some v"
      with Inl show "get v ''message'' \<noteq> Some (JStr m)" by (cases v) simp_all
    qed
    with eq Inl show ?thesis by (auto simp: on_error_frame_def)
  next
    case (Inr r)
    then obtain v where "get p ''value'' = Some v" "r = get v ''message''"
      by (rule read_prop_Inr)
    with eq Inr show ?thesis by (auto simp: on_error_frame_def)
  qed
qed










section \<open>The event log\<close>




section \<open>The text of a request\<close>

lemma frame_kinds [simp]:
  "is_text (text_frame v)" "\<not> is_text (event_frame v)" "\<not> is_text done_frame"
  "is_event (event_frame v)" "\<not> is_event (text_frame v)" "\<not> is_event done_frame"
  "get (text_frame v) ''value'' = Some v" "get (event_frame v) ''value'' = Some v"
  by (simp_all add: is_text_def is_event_def text_frame_def event_frame_def done_frame_def)

lemma readable_frames [simp]:
  "readable (text_frame v)" "readable (event_frame v) = truthy v" "readable done_frame"
  by (simp_all add: readable_def) (simp_all add: done_frame_def event_frame_def)

lemma adapter_inv_emit_event:
  "adapter_inv h st \<Longrightarrow> truthy v \<Longrightarrow> adapter_inv h (emitEvent (event_frame v) st)"
  by (simp add: adapter_inv_def emitEvent_def text_of_def)

lemma adapter_inv_tick [simp]: "adapter_inv h (tick st) = adapter_inv h st"
  by (simp add: adapter_inv_def tick_def)

lemma adapter_inv_results [simp]:
  "adapter_inv h (st\<lparr>webSearchResults := rs\<rparr>) = adapter_inv h st"
  by (simp add: adapter_inv_def)

lemma adapter_inv_last [simp]:
  "adapter_inv h (st\<lparr>lastEventType := a\<rparr>) = adapter_inv h st"
  by (simp add: adapter_inv_def)

lemma adapter_inv_text:
  "adapter_inv h st \<Longrightarrow>
   adapter_inv h (emitEvent (text_frame d) (st\<lparr>currentMessage := currentMessage st @ to_string h d\<rparr>))"
  by (simp add: adapter_inv_def emitEvent_def text_of_def)

lemma dispatch_inv:
  assumes "adapter_inv h st" "truthy e"
  shows "case dispatch h st e k of Continue st' \<Rightarrow> adapter_inv h st' | _ \<Rightarrow> True"
  using assms unfolding dispatch_def
  by (simp add: adapter_inv_emit_event adapter_inv_text Let_def
      split: option.split json.split sum.split)

lemma on_event_inv:
  assumes "adapter_inv h st" "on_event h st e = Continue st'"
  shows "adapter_inv h st'"
proof (cases "\<not> truthy e \<or> \<not> truthy_opt (get e ''type'')")
  case True
  with assms show ?thesis by (simp add: on_event_def)
next
  case False
  then obtain ty where ty: "get e ''type'' = Some ty" by (cases "get e ''type''") auto
  show ?thesis
  proof (cases ty)
    case (JStr k)
    from False have "truthy e" by simp
    with assms(1) have "case dispatch h (st\<lparr>lastEventType := ty\<rparr>) e k of
        Continue st' \<Rightarrow> adapter_inv h st' | _ \<Rightarrow> True"
      by (intro dispatch_inv) simp_all
    moreover from False ty JStr assms(2)
    have "dispatch h (st\<lparr>lastEventType := ty\<rparr>) e k = Continue st'"
      by (simp add: on_event_def)
    ultimately show ?thesis by simp
  qed (insert False ty assms, auto simp: on_event_def)
qed

lemma for_await_inv:
  assumes "adapter_inv h st" "for_await h st xs = Continue st'"
  shows "adapter_inv h st'"
  using assms
proof (induction xs arbitrary: st)
  case Nil
  then show ?case by simp
next
  case (Cons u us)
  show ?case
  proof (cases u)
    case (Reject x)
    with Cons.prems show ?thesis by simp
  next
    case (Event e)
    with Cons.prems(2) obtain st1 where s: "on_event h st e = Continue st1"
      "for_await h st1 us = Continue st'"
      by (cases "on_event h st e") simp_all
    from Cons.prems(1) s(1) have "adapter_inv h st1" by (rule on_event_inv)
    then show ?thesis using s(2) by (rule Cons.IH)
  qed
qed

lemma init_adapter_inv: "adapter_inv h init_adapter"
  by (simp add: adapter_inv_def init_adapter_def text_of_def)

lemma frames_of_map_Inr [simp]: "frames_of (map Inr fs) = fs"
  by (induction fs) simp_all

lemma on_record_readable:
  assumes "readable p"
  shows "\<exists>rq'. on_record h rq p = Continue rq'"
proof -
  consider (t) "is_text p" | (e) "is_event p" "truthy_opt (get p ''value'')"
    | (d) "get p ''type'' = Some (JStr ''done'')"
    using assms by (auto simp: readable_def)
  then show ?thesis
  proof cases
    case t
    then show ?thesis by (simp add: on_record_def is_text_get on_text_def Let_def)
  next
    case e
    then obtain v where v: "get p ''value'' = Some v" "truthy v"
      by (cases "get p ''value''") simp_all
    then have "read_prop h (get p ''value'') ''type'' = Inr (get v ''type'')"
      by (cases v) simp_all
    with e(1) show ?thesis
      by (simp add: on_record_def is_event_get on_event_frame_def Let_def)
  next
    case d
    then have "read_prop h (Some p) ''type'' = Inr (Some (JStr ''done''))"
      by (cases p) simp_all
    then show ?thesis by (simp add: on_record_def)
  qed
qed

lemma for_parsed_readable:
  assumes "list_all readable fs"
  shows "\<exists>rq'. for_parsed h rq (map Inr fs) = Continue rq'"
  using assms
proof (induction fs arbitrary: rq)
  case Nil
  show ?case by simp
next
  case (Cons f fs)
  from Cons.prems have "readable f" "list_all readable fs" by simp_all
  from on_record_readable [OF this(1)] obtain rq1 where "on_record h rq f = Continue rq1"
    by blast
  with Cons.IH [OF \<open>list_all readable fs\<close>, of rq1] show ?case by simp
qed

lemma handleSubmit_success:
  assumes "\<not> is_blank (input pg)" "\<not> isLoading pg"
    and "try_block h resp (begin_request h pg) = Continue rq"
  shows "error (handleSubmit h resp pg) = None"
    and "\<not> isLoading (handleSubmit h resp pg)"
    and "content (last (messages (handleSubmit h resp pg))) =
           text_of h (frames_of (received h (body_reads resp)))"
    and "totalElapsedTime (handleSubmit h resp pg) = totalElapsedTime (ui rq)"
proof -
  let ?init = "begin_request h pg"
  let ?ps = "received h (body_reads resp)"
  have r: "handleSubmit h resp pg = (ui rq)\<lparr>isLoading := False\<rparr>"
    using assms by (rule handleSubmit_Continue)
  have fp: "for_parsed h ?init ?ps = Continue rq"
    using assms(3) by (intro try_block_Continue) (simp_all add: begin_request_simps)
  have "keeps ?init (state_of (for_parsed h ?init ?ps))" by (rule for_parsed_keeps)
  with fp have k: "keeps ?init rq" by simp
  then show "error (handleSubmit h resp pg) = None"
    by (simp add: r keeps_def begin_request_simps)
  show "\<not> isLoading (handleSubmit h resp pg)" by (simp add: r)
  show "totalElapsedTime (handleSubmit h resp pg) = totalElapsedTime (ui rq)" by (simp add: r)
  have "last_inv (state_of (for_parsed h ?init ?ps))"
    by (rule for_parsed_last_inv) (rule begin_request_last_inv)
  with fp have li: "last (messages (ui rq)) = assistantMessage rq" by (simp add: last_inv_def)
  from for_parsed_effect [of ?ps h ?init] fp obtain fs
    where "effect h ?init rq fs" "fs = frames_of ?ps"
    by auto
  then have "content (assistantMessage rq) = text_of h (frames_of ?ps)"
    by (simp add: effect_def begin_request_simps)
  with li show "content (last (messages (handleSubmit h resp pg))) =
           text_of h (frames_of (received h (body_reads resp)))"
    by (simp add: r)
qed

lemma to_string_host:
  assumes "Number_toString h1 = Number_toString h2"
  shows "to_string h1 v = to_string h2 v"
  using assms
proof (induction h1 v rule: to_string.induct)
  case (5 h xs)
  then have "\<forall>x\<in>set xs. (if x = JNull then [] else to_string h x) =
      (if x = JNull then [] else to_string h2 x)"
    by auto
  then have m: "map (\<lambda>x. if x = JNull then [] else to_string h x) xs =
             map (\<lambda>x. if x = JNull then [] else to_string h2 x) xs"
    by (simp only: map_eq_conv)
  show ?case by (simp only: to_string.simps m)
qed simp_all

lemma text_of_host:
  assumes "Number_toString h1 = Number_toString h2"
  shows "text_of h1 fs = text_of h2 fs"
proof -
  have "to_string_opt h1 v = to_string_opt h2 v" for v
    using to_string_host [OF assms] by (cases v) simp_all
  then show ?thesis by (simp add: text_of_def)
qed

lemma on_event_text_done:
  assumes "get e ''type'' = Some (JStr ''response.output_text.done'')"
  shows "on_event h st e = Continue (tick (emitEvent (event_frame (JObj
         [(''type'', JStr ''response.output_text.done''), (''timestamp'', now_json h st),
          (''finalText'', JStr (currentMessage st))]))
          (st\<lparr>lastEventType := JStr ''response.output_text.done''\<rparr>)))"
proof -
  from assms have "truthy e" by (cases e) simp_all
  with assms show ?thesis
    by (simp add: on_event_def dispatch_def passthrough_kinds_def Let_def now_json_def)
qed

text \<open>
  Whole records. When the reads of the body deliver the frames that the adapter enqueued
  for a session, each record whole, and the request ends without an error, the content of
  the assistant message, the last message of the conversation, is the concatenation in
  order of the deltas of the \<open>text\<close> frames. When the loop of the adapter reaches a
  \<open>response.output_text.done\<close> event, the \<open>event\<close> frame it enqueues carries as
  \<open>finalText\<close> the same concatenation over the frames enqueued so far. The concatenation
  is the same on two hosts that print numbers alike. The deltas \<open>Hel\<close> and \<open>lo\<close> give
  \<open>Hello\<close>.
\<close>

theorem text_deltas_concatenate:
  "(\<not> is_blank (input pg) \<and> \<not> isLoading pg \<and>
    received hc reads = map Inr (enqueued (start hs session)) \<and>
    error (handleSubmit hc (Response True (Some reads)) pg) = None \<longrightarrow>
      content (last (messages (handleSubmit hc (Response True (Some reads)) pg))) =
        text_of hc (enqueued (start hs session))) \<and>
   (for_await hs init_adapter pre = Continue st \<and>
    get e ''type'' = Some (JStr ''response.output_text.done'') \<longrightarrow>
      (\<exists>st'. on_event hs st e = Continue st' \<and>
         enqueued st' = enqueued st @ [event_frame (JObj
           [(''type'', JStr ''response.output_text.done''), (''timestamp'', now_json hs st),
            (''finalText'', JStr (text_of hs (enqueued st)))])])) \<and>
   (Number_toString hc = Number_toString hs \<longrightarrow> text_of hc fs = text_of hs fs)"
proof (intro conjI impI)
  assume a: "\<not> is_blank (input pg) \<and> \<not> isLoading pg \<and>
    received hc reads = map Inr (enqueued (start hs session)) \<and>
    error (handleSubmit hc (Response True (Some reads)) pg) = None"
  then obtain rq where "try_block hc (Response True (Some reads)) (begin_request hc pg) = Continue rq"
    using handleSubmit_error_None [of pg hc "Response True (Some reads)"] by blast
  with a have "content (last (messages (handleSubmit hc (Response True (Some reads)) pg))) =
      text_of hc (frames_of (received hc (body_reads (Response True (Some reads)))))"
    by (intro handleSubmit_success(3)) simp_all
  with a show "content (last (messages (handleSubmit hc (Response True (Some reads)) pg))) =
        text_of hc (enqueued (start hs session))"
    by simp
next
  assume b: "for_await hs init_adapter pre = Continue st \<and>
    get e ''type'' = Some (JStr ''response.output_text.done'')"
  then have "adapter_inv hs st" using init_adapter_inv for_await_inv by blast
  then have "currentMessage st = text_of hs (enqueued st)" by (simp add: adapter_inv_def)
  with b on_event_text_done [of e hs st]
  show "\<exists>st'. on_event hs st e = Continue st' \<and>
         enqueued st' = enqueued st @ [event_frame (JObj
           [(''type'', JStr ''response.output_text.done''), (''timestamp'', now_json hs st),
            (''finalText'', JStr (text_of hs (enqueued st)))])]"
    by (simp add: tick_def emitEvent_def)
next
  assume "Number_toString hc = Number_toString hs"
  then show "text_of hc fs = text_of hs fs" by (rule text_of_host)
qed

theorem text_deltas_concatenate_witness:
  "\<not> is_blank (input demo_page) \<and> \<not> isLoading demo_page \<and>
   received demo_host hello_body = map Inr (enqueued (start demo_host hello_session)) \<and>
   error (handleSubmit demo_host (Response True (Some hello_body)) demo_page) = None \<and>
   content (last (messages (handleSubmit demo_host (Response True (Some hello_body)) demo_page))) =
     ''Hello'' \<and>
   text_of demo_host (enqueued (start demo_host hello_session)) = ''Hello'' \<and>
   for_await demo_host init_adapter [Event (delta_ev ''Hel''), Event (delta_ev ''lo'')] =
     Continue \<lparr>currentMessage = ''Hello'', lastEventType = JStr ''response.output_text.delta'',
       webSearchResults = [], enqueued = [text_frame (JStr ''Hel''), text_frame (JStr ''lo'')],
       closed = False, ticks = 0\<rparr> \<and>
   get (ev ''response.output_text.done'') ''type'' = Some (JStr ''response.output_text.done'') \<and>
   enqueued (state_of (on_event demo_host
       \<lparr>currentMessage = ''Hello'', lastEventType = JStr ''response.output_text.delta'',
        webSearchResults = [], enqueued = [text_frame (JStr ''Hel''), text_frame (JStr ''lo'')],
        closed = False, ticks = 0\<rparr> (ev ''response.output_text.done''))) =
     [text_frame (JStr ''Hel''), text_frame (JStr ''lo''),
      event_frame (JObj [(''type'', JStr ''response.output_text.done''),
        (''timestamp'', JNum 1000), (''finalText'', JStr ''Hello'')])]"
proof -
  let ?st = "\<lparr>currentMessage = ''Hello'', lastEventType = JStr ''response.output_text.delta'',
       webSearchResults = [], enqueued = [text_frame (JStr ''Hel''), text_frame (JStr ''lo'')],
       closed = False, ticks = 0\<rparr>"
  let ?e = "ev ''response.output_text.done''"
  let ?r = "handleSubmit demo_host (Response True (Some hello_body)) demo_page"
  have a: "\<not> is_blank (input demo_page)" by code_simp
  have b: "\<not> isLoading demo_page" by code_simp
  have c: "received demo_host hello_body = map Inr (enqueued (start demo_host hello_session))"
    by code_simp
  have d: "error ?r = None" by code_simp
  have t: "text_of demo_host (enqueued (start demo_host hello_session)) = ''Hello''"
    by code_simp
  have p: "for_await demo_host init_adapter [Event (delta_ev ''Hel''), Event (delta_ev ''lo'')] =
     Continue ?st"
    by code_simp
  have k: "get ?e ''type'' = Some (JStr ''response.output_text.done'')" by code_simp
  have f: "enqueued ?st @ [event_frame (JObj
           [(''type'', JStr ''response.output_text.done''), (''timestamp'', now_json demo_host ?st),
            (''finalText'', JStr (text_of demo_host (enqueued ?st)))])] =
     [text_frame (JStr ''Hel''), text_frame (JStr ''lo''),
      event_frame (JObj [(''type'', JStr ''response.output_text.done''),
        (''timestamp'', JNum 1000), (''finalText'', JStr ''Hello'')])]"
    by code_simp
  note inst = text_deltas_concatenate [of demo_page demo_host hello_body demo_host hello_session
      "[Event (delta_ev ''Hel''), Event (delta_ev ''lo'')]" ?st ?e]
  from inst a b c d have c1: "content (last (messages ?r)) =
      text_of demo_host (enqueued (start demo_host hello_session))"
    by blast
  from inst p k obtain st' where st': "on_event demo_host ?st ?e = Continue st'"
    "enqueued st' = enqueued ?st @ [event_frame (JObj
           [(''type'', JStr ''response.output_text.done''), (''timestamp'', now_json demo_host ?st),
            (''finalText'', JStr (text_of demo_host (enqueued ?st)))])]"
    by blast
  from st' f have c2: "enqueued (state_of (on_event demo_host ?st ?e)) =
     [text_frame (JStr ''Hel''), text_frame (JStr ''lo''),
      event_frame (JObj [(''type'', JStr ''response.output_text.done''),
        (''timestamp'', JNum 1000), (''finalText'', JStr ''Hello'')])]"
    by simp
  from a b c d c1 t p k c2 show ?thesis by simp
qed

text \<open>
  Claim C2. The reader decodes each read of the body and splits it into lines by itself,
  and keeps nothing of a read for the next one (\<open>page.tsx\<close>, lines 102 to 106). The
  frames of the session with the deltas \<open>Hel\<close> and \<open>lo\<close>, read in whole records, give
  the assistant message \<open>Hello\<close>, the concatenation of the deltas. The same bytes read
  in pieces that cut the second record inside its \<open>data: \<close> marker end the request
  without an error and with the assistant message \<open>Hel\<close>: both pieces of the record
  are skipped as lines that are not records.
\<close>

theorem cut_record_loses_delta:
  "received demo_host hello_body = map Inr (enqueued (start demo_host hello_session)) \<and>
   text_of demo_host (enqueued (start demo_host hello_session)) = ''Hello'' \<and>
   content (last (messages
      (handleSubmit demo_host (Response True (Some hello_body)) demo_page))) = ''Hello'' \<and>
   body_text hello_cut = body_text hello_body \<and>
   error (handleSubmit demo_host (Response True (Some hello_cut)) demo_page) = None \<and>
   \<not> isLoading (handleSubmit demo_host (Response True (Some hello_cut)) demo_page) \<and>
   map role (messages (handleSubmit demo_host (Response True (Some hello_cut)) demo_page)) =
     [''user'', ''assistant''] \<and>
   content (last (messages
      (handleSubmit demo_host (Response True (Some hello_cut)) demo_page))) = ''Hel''"
  by code_simp

section \<open>The safety net\<close>

lemma on_record_completed:
  "on_record h rq (event_frame (JObj [(''type'', JStr ''response.completed'')])) =
     Continue (rq\<lparr>clock := Suc (clock rq),
       ui := (ui rq)\<lparr>apiEvents := apiEvents (ui rq) @
           [\<lparr>etype = Some (JStr ''response.completed''), timestamp = Date_now h (clock rq),
             data = JObj [(''type'', JStr ''response.completed'')],
             elapsedSinceLastEvent = Some (Date_now h (clock rq) - lastEventTime rq)\<rparr>],
         totalElapsedTime := Some (Date_now h (clock rq) - startTime rq)\<rparr>,
       lastEventTime := Date_now h (clock rq)\<rparr>)"
  by (simp add: on_record_def on_event_frame_def event_frame_def Let_def)

lemma on_record_done: "on_record h rq done_frame = Continue (rq\<lparr>clock := Suc (clock rq)\<rparr>)"
  by (simp add: on_record_def done_frame_def)

lemma for_parsed_map_append:
  "for_parsed h rq (map Inr (fs @ gs)) =
     (case for_parsed h rq (map Inr fs) of
        Continue rq' \<Rightarrow> for_parsed h rq' (map Inr gs)
      | Return rq' \<Rightarrow> Return rq'
      | Throw rq' x \<Rightarrow> Throw rq' x)"
  by (simp add: for_parsed_append)

text \<open>
  When the loop of the adapter runs to the end of the session, the adapter enqueues an
  \<open>event\<close> frame whose payload is of type \<open>response.completed\<close>, then a \<open>done\<close> frame,
  and closes the controller. A reader whose reads deliver these frames, each record
  whole, ends the request without an error and no longer loading, with the total elapsed
  time recorded and the assistant message holding the text of the deltas enqueued.
\<close>

theorem safety_net:
  assumes "for_await hs init_adapter session = Continue st"
  shows "enqueued (start hs session) =
           enqueued st @ [event_frame (JObj [(''type'', JStr ''response.completed'')]), done_frame] \<and>
         closed (start hs session) \<and>
         (\<not> is_blank (input pg) \<and> \<not> isLoading pg \<and>
          received hc reads = map Inr (enqueued (start hs session)) \<longrightarrow>
            error (handleSubmit hc (Response True (Some reads)) pg) = None \<and>
            \<not> isLoading (handleSubmit hc (Response True (Some reads)) pg) \<and>
            totalElapsedTime (handleSubmit hc (Response True (Some reads)) pg) \<noteq> None \<and>
            content (last (messages (handleSubmit hc (Response True (Some reads)) pg))) =
              text_of hc (enqueued st))"
proof -
  let ?synth = "event_frame (JObj [(''type'', JStr ''response.completed'')])"
  let ?resp = "Response True (Some reads)"
  have "flow_ok (Continue st)" using for_await_init_ok [of hs session] assms by simp
  then have "lastEventType st \<noteq> JStr ''response.completed''" by simp
  then have fr: "enqueued (start hs session) = enqueued st @ [?synth, done_frame]"
    and cl: "closed (start hs session)"
    by (simp_all add: start_def assms finish_def emitEvent_def close_def)
  have inv: "adapter_inv hs st" using init_adapter_inv assms by (rule for_await_inv)
  have reader: "error (handleSubmit hc ?resp pg) = None \<and>
            \<not> isLoading (handleSubmit hc ?resp pg) \<and>
            totalElapsedTime (handleSubmit hc ?resp pg) \<noteq> None \<and>
            content (last (messages (handleSubmit hc ?resp pg))) = text_of hc (enqueued st)"
    if h: "\<not> is_blank (input pg) \<and> \<not> isLoading pg \<and>
          received hc reads = map Inr (enqueued (start hs session))"
  proof -
    let ?init = "begin_request hc pg"
    from inv have "list_all readable (enqueued st)" by (simp add: adapter_inv_def)
    from for_parsed_readable [OF this, of hc ?init] obtain rq1
      where rq1: "for_parsed hc ?init (map Inr (enqueued st)) = Continue rq1" by blast
    let ?rq2 = "rq1\<lparr>clock := Suc (clock rq1),
       ui := (ui rq1)\<lparr>apiEvents := apiEvents (ui rq1) @
           [\<lparr>etype = Some (JStr ''response.completed''), timestamp = Date_now hc (clock rq1),
             data = JObj [(''type'', JStr ''response.completed'')],
             elapsedSinceLastEvent = Some (Date_now hc (clock rq1) - lastEventTime rq1)\<rparr>],
         totalElapsedTime := Some (Date_now hc (clock rq1) - startTime rq1)\<rparr>,
       lastEventTime := Date_now hc (clock rq1)\<rparr>"
    let ?rq3 = "?rq2\<lparr>clock := Suc (clock ?rq2)\<rparr>"
    have "for_parsed hc ?init (map Inr (enqueued st @ [?synth, done_frame])) = Continue ?rq3"
      unfolding for_parsed_map_append rq1
      by (simp add: on_record_completed on_record_done)
    with h fr have tb: "try_block hc ?resp ?init = Continue ?rq3"
      by (simp add: try_block_parsed begin_request_simps)
    from h have nb: "\<not> is_blank (input pg)" and nl: "\<not> isLoading pg" by simp_all
    note s = handleSubmit_success [OF nb nl tb]
    from h fr have "received hc reads = map Inr (enqueued st @ [?synth, done_frame])"
      by simp
    then have "frames_of (received hc (body_reads ?resp)) = enqueued st @ [?synth, done_frame]"
      by (simp only: body_reads.simps if_True frames_of_map_Inr)
    with s(3) have "content (last (messages (handleSubmit hc ?resp pg))) =
        text_of hc (enqueued st @ [?synth, done_frame])"
      by (simp only:)
    also have "\<dots> = text_of hc (enqueued st)"
      by (simp add: text_of_def)
    finally have c: "content (last (messages (handleSubmit hc ?resp pg))) =
        text_of hc (enqueued st)" .
    from s(4) have "totalElapsedTime (handleSubmit hc ?resp pg) \<noteq> None" by simp
    with s(1) s(2) c show ?thesis by simp
  qed
  from fr cl reader show ?thesis by blast
qed

theorem safety_net_witness:
  "for_await demo_host init_adapter cut_session =
     Continue \<lparr>currentMessage = ''Hel'', lastEventType = JStr ''response.output_text.delta'',
       webSearchResults = [],
       enqueued = [event_frame (ev ''response.in_progress''), text_frame (JStr ''Hel'')],
       closed = False, ticks = 0\<rparr> \<and>
   enqueued (start demo_host cut_session) =
     [event_frame (ev ''response.in_progress''), text_frame (JStr ''Hel''),
      event_frame (JObj [(''type'', JStr ''response.completed'')]), done_frame] \<and>
   \<not> is_blank (input demo_page) \<and> \<not> isLoading demo_page \<and>
   received demo_host cut_body = map Inr (enqueued (start demo_host cut_session)) \<and>
   error (handleSubmit demo_host (Response True (Some cut_body)) demo_page) = None \<and>
   totalElapsedTime (handleSubmit demo_host (Response True (Some cut_body)) demo_page) = Some 25 \<and>
   content (last (messages (handleSubmit demo_host (Response True (Some cut_body)) demo_page))) =
     ''Hel''"
proof -
  let ?st = "\<lparr>currentMessage = ''Hel'', lastEventType = JStr ''response.output_text.delta'',
       webSearchResults = [],
       enqueued = [event_frame (ev ''response.in_progress''), text_frame (JStr ''Hel'')],
       closed = False, ticks = 0\<rparr>"
  let ?r = "handleSubmit demo_host (Response True (Some cut_body)) demo_page"
  have x: "for_await demo_host init_adapter cut_session = Continue ?st" by code_simp
  have a: "\<not> is_blank (input demo_page)" by code_simp
  have b: "\<not> isLoading demo_page" by code_simp
  have c: "received demo_host cut_body = map Inr (enqueued (start demo_host cut_session))"
    by code_simp
  have t: "text_of demo_host (enqueued ?st) = ''Hel''" by code_simp
  have e: "totalElapsedTime ?r = Some 25" by code_simp
  note inst = safety_net [OF x, of demo_page demo_host cut_body]
  from inst have f: "enqueued (start demo_host cut_session) =
      enqueued ?st @ [event_frame (JObj [(''type'', JStr ''response.completed'')]), done_frame]"
    by blast
  from inst a b c have g: "error ?r = None" "content (last (messages ?r)) =
      text_of demo_host (enqueued ?st)"
    by blast+
  from x f a b c g t e show ?thesis by simp
qed

text \<open>
  Claim C4. For the session that ends after \<open>response.in_progress\<close> and the deltas
  \<open>Hel\<close> and \<open>lo\<close> the adapter enqueues the three frames, the \<open>event\<close> frame of type
  \<open>response.completed\<close> and the \<open>done\<close> frame, and closes the controller; read in whole
  records, the request completes with the assistant message \<open>Hello\<close>. The same bytes cut
  inside the \<open>data: \<close> marker of the last \<open>text\<close> record complete the request with the
  assistant message \<open>Hel\<close>, not the text accumulated; cut inside the text of that
  record, they end the request with an error, no total elapsed time and no assistant
  message. The reader keeps nothing of a read for the next one (\<open>page.tsx\<close>, lines 102
  to 106).
\<close>

theorem cut_record_after_safety_net:
  "enqueued (start demo_host net_session) =
     [event_frame (ev ''response.in_progress''), text_frame (JStr ''Hel''),
      text_frame (JStr ''lo''), event_frame (ev ''response.completed''), done_frame] \<and>
   closed (start demo_host net_session) \<and>
   received demo_host net_body = map Inr (enqueued (start demo_host net_session)) \<and>
   content (last (messages
      (handleSubmit demo_host (Response True (Some net_body)) demo_page))) = ''Hello'' \<and>
   body_text net_cut_marker = body_text net_body \<and>
   error (handleSubmit demo_host (Response True (Some net_cut_marker)) demo_page) = None \<and>
   totalElapsedTime (handleSubmit demo_host (Response True (Some net_cut_marker)) demo_page) =
     Some 25 \<and>
   content (last (messages
      (handleSubmit demo_host (Response True (Some net_cut_marker)) demo_page))) = ''Hel'' \<and>
   body_text net_cut_text = body_text net_body \<and>
   error (handleSubmit demo_host (Response True (Some net_cut_text)) demo_page) =
     Some ''Unexpected token'' \<and>
   totalElapsedTime (handleSubmit demo_host (Response True (Some net_cut_text)) demo_page) =
     None \<and>
   map role (messages (handleSubmit demo_host (Response True (Some net_cut_text)) demo_page)) =
     [''user'']"
  by code_simp

section \<open>Web search results\<close>

lemma normalize_results_ok:
  "JNull \<notin> set rs \<Longrightarrow> normalize_results h rs = Inr (map normalize_result rs)"
  by (induction rs) auto

lemma on_event_results:
  assumes "get e ''type'' = Some (JStr ''response.web_search_call.results'')"
    and "get e ''results'' = Some (JArr rs)" and "JNull \<notin> set rs"
  shows "on_event h st e = Continue (tick (emitEvent (event_frame (JObj
       [(''type'', JStr ''web_search.results''), (''timestamp'', now_json h st),
        (''results'', JArr (map normalize_result rs))]))
       (st\<lparr>lastEventType := JStr ''response.web_search_call.results'',
           webSearchResults := rs\<rparr>)))"
proof -
  from assms(1) have "truthy e" by (cases e) simp_all
  with assms show ?thesis
    by (simp add: on_event_def dispatch_def passthrough_kinds_def Let_def now_json_def
        normalize_results_ok)
qed

lemma on_event_search_completed:
  assumes "get c ''type'' = Some (JStr ''response.web_search_call.completed'')"
  shows "on_event h st c = Continue (tick (emitEvent (event_frame (JObj
       [(''type'', JStr ''web_search.completed''), (''timestamp'', now_json h st),
        (''resultCount'', JNum (real (length (webSearchResults st))))]))
       (st\<lparr>lastEventType := JStr ''response.web_search_call.completed''\<rparr>)))"
proof -
  from assms(1) have "truthy c" by (cases c) simp_all
  with assms show ?thesis
    by (simp add: on_event_def dispatch_def passthrough_kinds_def Let_def now_json_def)
qed

lemma dispatch_keeps_results:
  assumes "k \<noteq> ''response.web_search_call.results''"
  shows "webSearchResults (state_of (dispatch h st e k)) = webSearchResults st"
  using assms unfolding dispatch_def
  by (simp add: emitEvent_def tick_def close_def split: option.split)

lemma on_event_keeps_results:
  assumes "no_results (Event e)"
  shows "webSearchResults (state_of (on_event h st e)) = webSearchResults st"
proof (cases "\<not> truthy e \<or> \<not> truthy_opt (get e ''type'')")
  case True
  then show ?thesis by (simp add: on_event_def)
next
  case False
  then obtain ty where ty: "get e ''type'' = Some ty" by (cases "get e ''type''") auto
  show ?thesis
  proof (cases ty)
    case (JStr k)
    with assms ty have "k \<noteq> ''response.web_search_call.results''" by simp
    from dispatch_keeps_results [OF this, of h "st\<lparr>lastEventType := ty\<rparr>" e]
    show ?thesis using False ty JStr by (simp add: on_event_def)
  qed (insert False ty, auto simp: on_event_def)
qed

lemma for_await_keeps_results:
  assumes "list_all no_results xs"
  shows "webSearchResults (state_of (for_await h st xs)) = webSearchResults st"
  using assms
proof (induction xs arbitrary: st)
  case Nil
  show ?case by simp
next
  case (Cons u us)
  show ?case
  proof (cases u)
    case (Reject x)
    then show ?thesis by simp
  next
    case (Event e)
    with Cons.prems have nr: "no_results (Event e)" and rest: "list_all no_results us"
      by simp_all
    from on_event_keeps_results [OF nr, of h st]
    show ?thesis using Event Cons.IH [OF rest]
      by (cases "on_event h st e") simp_all
  qed
qed

lemma on_record_results_frame:
  "on_record h rq (event_frame (JObj
       [(''type'', JStr ''web_search.results''), (''timestamp'', t), (''results'', JArr ns)])) =
   Continue (rq\<lparr>clock := Suc (clock rq),
     ui := (ui rq)\<lparr>webSearchResults_page := JArr ns,
       apiEvents := apiEvents (ui rq) @
         [\<lparr>etype = Some (JStr ''web_search.results''), timestamp = Date_now h (clock rq),
           data = JObj [(''type'', JStr ''web_search.results''), (''timestamp'', t),
                        (''results'', JArr ns)],
           elapsedSinceLastEvent = Some (Date_now h (clock rq) - lastEventTime rq)\<rparr>]\<rparr>,
     lastEventTime := Date_now h (clock rq)\<rparr>)"
  by (simp add: on_record_def on_event_frame_def event_frame_def Let_def)

text \<open>
  Claim C7, as the code has it. When the loop of the adapter reaches a
  \<open>response.web_search_call.results\<close> event whose \<open>results\<close> is a list of \<open>n\<close> entries,
  none of them \<open>null\<close>, the adapter enqueues a \<open>web_search.results\<close> frame with these \<open>n\<close>
  results, each normalized to its title, url and snippet; a reader that handles this
  frame then holds exactly that list as its search results. When the loop later reaches a
  \<open>response.web_search_call.completed\<close> event, with no other results event in between,
  the adapter enqueues a \<open>web_search.completed\<close> frame whose \<open>resultCount\<close> is \<open>n\<close>.
\<close>

theorem web_search_results_count:
  assumes "for_await h init_adapter pre = Continue st"
    and "get e ''type'' = Some (JStr ''response.web_search_call.results'')"
    and "get e ''results'' = Some (JArr rs)" and "JNull \<notin> set rs"
    and "for_await h init_adapter (pre @ Event e # mid) = Continue st2"
    and "list_all no_results mid"
    and "get c ''type'' = Some (JStr ''response.web_search_call.completed'')"
  shows "\<exists>st1 rq' st3.
      on_event h st e = Continue st1 \<and>
      enqueued st1 = enqueued st @ [event_frame (JObj
         [(''type'', JStr ''web_search.results''), (''timestamp'', now_json h st),
          (''results'', JArr (map normalize_result rs))])] \<and>
      on_record hc rq (last (enqueued st1)) = Continue rq' \<and>
      webSearchResults_page (ui rq') = JArr (map normalize_result rs) \<and>
      on_event h st2 c = Continue st3 \<and>
      enqueued st3 = enqueued st2 @ [event_frame (JObj
         [(''type'', JStr ''web_search.completed''), (''timestamp'', now_json h st2),
          (''resultCount'', JNum (real (length rs)))])]"
proof -
  let ?F = "event_frame (JObj
         [(''type'', JStr ''web_search.results''), (''timestamp'', now_json h st),
          (''results'', JArr (map normalize_result rs))])"
  let ?st1 = "tick (emitEvent ?F
       (st\<lparr>lastEventType := JStr ''response.web_search_call.results'',
           webSearchResults := rs\<rparr>))"
  have e1: "on_event h st e = Continue ?st1"
    using assms(2,3,4) by (rule on_event_results)
  have q1: "enqueued ?st1 = enqueued st @ [?F]" by (simp add: tick_def emitEvent_def)
  from assms(5) assms(1) e1 have "for_await h ?st1 mid = Continue st2"
    by (simp add: for_await_append)
  with for_await_keeps_results [OF assms(6), of h ?st1]
  have "webSearchResults st2 = rs" by (simp add: tick_def emitEvent_def)
  with on_event_search_completed [OF assms(7), of h st2]
  have e3: "on_event h st2 c = Continue (tick (emitEvent (event_frame (JObj
       [(''type'', JStr ''web_search.completed''), (''timestamp'', now_json h st2),
        (''resultCount'', JNum (real (length rs)))]))
       (st2\<lparr>lastEventType := JStr ''response.web_search_call.completed''\<rparr>)))"
    by simp
  let ?st3 = "tick (emitEvent (event_frame (JObj
       [(''type'', JStr ''web_search.completed''), (''timestamp'', now_json h st2),
        (''resultCount'', JNum (real (length rs)))]))
       (st2\<lparr>lastEventType := JStr ''response.web_search_call.completed''\<rparr>))"
  have q3: "enqueued ?st3 = enqueued st2 @ [event_frame (JObj
         [(''type'', JStr ''web_search.completed''), (''timestamp'', now_json h st2),
          (''resultCount'', JNum (real (length rs)))])]"
    by (simp add: tick_def emitEvent_def)
  obtain rq' where r: "on_record hc rq ?F = Continue rq'"
    "webSearchResults_page (ui rq') = JArr (map normalize_result rs)"
    by (simp add: on_record_results_frame)
  from q1 r(1) have r1: "on_record hc rq (last (enqueued ?st1)) = Continue rq'" by simp
  show ?thesis
    by (rule exI [of _ ?st1], rule exI [of _ rq'], rule exI [of _ ?st3])
      (intro conjI e1 q1 r1 r(2) e3 q3)
qed

theorem web_search_results_count_witness:
  "for_await demo_host init_adapter search_pre =
     Continue (state_of (for_await demo_host init_adapter search_pre)) \<and>
   get results_ev ''type'' = Some (JStr ''response.web_search_call.results'') \<and>
   get results_ev ''results'' = Some (JArr
        [JObj [(''title'', JStr ''A''), (''url'', JStr ''https://a.example''),
               (''snippet'', JStr ''first'')],
         JObj [(''title'', JStr ''B''), (''url'', JStr ''https://b.example'')]]) \<and>
   for_await demo_host init_adapter (search_pre @ Event results_ev # [Event (delta_ev ''Hel'')]) =
     Continue (state_of (for_await demo_host init_adapter
        (search_pre @ Event results_ev # [Event (delta_ev ''Hel'')]))) \<and>
   list_all no_results [Event (delta_ev ''Hel'')] \<and>
   get (ev ''response.web_search_call.completed'') ''type'' =
     Some (JStr ''response.web_search_call.completed'') \<and>
   webSearchResults_page (ui (state_of (on_record demo_host (begin_request demo_host demo_page)
      (last (enqueued (state_of (on_event demo_host
         (state_of (for_await demo_host init_adapter search_pre)) results_ev))))))) =
     JArr [JObj [(''title'', JStr ''A''), (''url'', JStr ''https://a.example''),
                 (''snippet'', JStr ''first'')],
           JObj [(''title'', JStr ''B''), (''url'', JStr ''https://b.example''),
                 (''snippet'', JStr '''')]] \<and>
   last (enqueued (state_of (on_event demo_host
      (state_of (for_await demo_host init_adapter
         (search_pre @ Event results_ev # [Event (delta_ev ''Hel'')])))
      (ev ''response.web_search_call.completed'')))) =
     event_frame (JObj [(''type'', JStr ''web_search.completed''), (''timestamp'', JNum 1010),
       (''resultCount'', JNum 2)])"
proof -
  let ?rs = "[JObj [(''title'', JStr ''A''), (''url'', JStr ''https://a.example''),
               (''snippet'', JStr ''first'')],
         JObj [(''title'', JStr ''B''), (''url'', JStr ''https://b.example'')]]"
  let ?st = "state_of (for_await demo_host init_adapter search_pre)"
  let ?st2 = "state_of (for_await demo_host init_adapter
        (search_pre @ Event results_ev # [Event (delta_ev ''Hel'')]))"
  let ?c = "ev ''response.web_search_call.completed''"
  let ?rq = "begin_request demo_host demo_page"
  have a1: "for_await demo_host init_adapter search_pre = Continue ?st" by code_simp
  have a2: "get results_ev ''type'' = Some (JStr ''response.web_search_call.results'')"
    by code_simp
  have a3: "get results_ev ''results'' = Some (JArr ?rs)" by code_simp
  have a4: "JNull \<notin> set ?rs" by simp
  have a5: "for_await demo_host init_adapter
      (search_pre @ Event results_ev # [Event (delta_ev ''Hel'')]) = Continue ?st2"
    by code_simp
  have a6: "list_all no_results [Event (delta_ev ''Hel'')]" by code_simp
  have a7: "get ?c ''type'' = Some (JStr ''response.web_search_call.completed'')" by code_simp
  from web_search_results_count [OF a1 a2 a3 a4 a5 a6 a7, of demo_host ?rq]
  obtain st1 rq' st3 where
    w: "on_event demo_host ?st results_ev = Continue st1"
      "on_record demo_host ?rq (last (enqueued st1)) = Continue rq'"
      "webSearchResults_page (ui rq') = JArr (map normalize_result ?rs)"
      "on_event demo_host ?st2 ?c = Continue st3"
      "enqueued st3 = enqueued ?st2 @ [event_frame (JObj
         [(''type'', JStr ''web_search.completed''), (''timestamp'', now_json demo_host ?st2),
          (''resultCount'', JNum (real (length ?rs)))])]"
    by blast
  have n: "map normalize_result ?rs =
     [JObj [(''title'', JStr ''A''), (''url'', JStr ''https://a.example''),
                 (''snippet'', JStr ''first'')],
           JObj [(''title'', JStr ''B''), (''url'', JStr ''https://b.example''),
                 (''snippet'', JStr '''')]]"
    by code_simp
  have t: "now_json demo_host ?st2 = JNum 1010" by code_simp
  from w(1,2,3) n have c1: "webSearchResults_page (ui (state_of (on_record demo_host ?rq
      (last (enqueued (state_of (on_event demo_host ?st results_ev))))))) =
     JArr [JObj [(''title'', JStr ''A''), (''url'', JStr ''https://a.example''),
                 (''snippet'', JStr ''first'')],
           JObj [(''title'', JStr ''B''), (''url'', JStr ''https://b.example''),
                 (''snippet'', JStr '''')]]"
    by simp
  from w(4,5) t have c2: "last (enqueued (state_of (on_event demo_host ?st2 ?c))) =
     event_frame (JObj [(''type'', JStr ''web_search.completed''), (''timestamp'', JNum 1010),
       (''resultCount'', JNum 2)])"
    by simp
  from a1 a2 a3 a5 a6 a7 c1 c2 show ?thesis by simp
qed

text \<open>
  A list with a \<open>null\<close> entry ends the session with an \<open>error\<close> frame and no results
  frame; a second results event replaces the list that is counted; and a results frame
  cut inside its \<open>data: \<close> marker by the reads of the body is not handled by the reader,
  whose search results stay empty.
\<close>

theorem web_search_results_counterexample:
  "get null_results_ev ''results'' = Some (JArr [JObj [(''title'', JStr ''A'')], JNull]) \<and>
   enqueued (start demo_host
      [Event null_results_ev, Event (ev ''response.web_search_call.completed'')]) =
     [error_frame (JObj [(''message'',
        JStr ''Cannot read properties of null (reading title)'')])] \<and>
   get results_ev ''results'' = Some (JArr
        [JObj [(''title'', JStr ''A''), (''url'', JStr ''https://a.example''),
               (''snippet'', JStr ''first'')],
         JObj [(''title'', JStr ''B''), (''url'', JStr ''https://b.example'')]]) \<and>
   enqueued (start demo_host
      [Event results_ev, Event one_result_ev, Event (ev ''response.web_search_call.completed'')]) !
      2 =
     event_frame (JObj [(''type'', JStr ''web_search.completed''), (''timestamp'', JNum 1010),
       (''resultCount'', JNum 1)]) \<and>
   received demo_host search_body = map Inr (enqueued (start demo_host [Event results_ev])) \<and>
   body_text search_cut = body_text search_body \<and>
   error (handleSubmit demo_host (Response True (Some search_cut)) demo_page) = None \<and>
   webSearchResults_page (handleSubmit demo_host (Response True (Some search_cut)) demo_page) =
     JArr []"
  by code_simp

section \<open>Two runs on the same frames\<close>

lemma read_prop_clock [simp]: "read_prop (h\<lparr>Date_now := c\<rparr>) v k = read_prop h v k"
proof (cases v)
  case None
  then show ?thesis by simp
next
  case (Some j)
  then show ?thesis by (cases j) simp_all
qed

lemma to_string_clock [simp]: "to_string (h\<lparr>Date_now := c\<rparr>) v = to_string h v"
  by (rule to_string_host) simp

lemma to_string_opt_clock [simp]: "to_string_opt (h\<lparr>Date_now := c\<rparr>) v = to_string_opt h v"
  by (cases v) simp_all

lemma received_clock [simp]: "received (h\<lparr>Date_now := c\<rparr>) reads = received h reads"
proof (induction reads)
  case Nil
  show ?case by simp
next
  case (Cons r reads)
  then show ?case by (cases r) (simp_all add: parse_record_def)
qed

lemma on_record_sim:
  assumes "sim a b"
  shows "same_flow (on_record h a p) (on_record (h\<lparr>Date_now := c\<rparr>) b p)"
proof (cases "read_prop h (Some p) ''type''")
  case (Inl x)
  with assms show ?thesis by (simp add: on_record_def sim_def)
next
  case (Inr ty)
  show ?thesis
  proof (cases "ty = Some (JStr ''text'')")
    case True
    with Inr assms show ?thesis by (simp add: on_record_def on_text_def sim_def Let_def)
  next
    case nt: False
    show ?thesis
    proof (cases "ty = Some (JStr ''event'')")
      case True
      with Inr assms show ?thesis
        by (simp add: on_record_def on_event_frame_def sim_def Let_def split: sum.split)
    next
      case False
      with nt Inr assms show ?thesis
        by (simp add: on_record_def on_error_frame_def sim_def Let_def split: sum.split
            cong: option.case_cong)
    qed
  qed
qed

lemma for_parsed_sim:
  assumes "sim a b"
  shows "same_flow (for_parsed h a ps) (for_parsed (h\<lparr>Date_now := c\<rparr>) b ps)"
  using assms
proof (induction ps arbitrary: a b)
  case Nil
  then show ?case by simp
next
  case (Cons q ps)
  show ?case
  proof (cases q)
    case (Inl x)
    with Cons.prems show ?thesis by simp
  next
    case (Inr p)
    from on_record_sim [OF Cons.prems, of h p c]
    have s: "same_flow (on_record h a p) (on_record (h\<lparr>Date_now := c\<rparr>) b p)" .
    show ?thesis
    proof (cases "on_record h a p")
      case (Continue a')
      with s obtain b' where b': "on_record (h\<lparr>Date_now := c\<rparr>) b p = Continue b'" "sim a' b'"
        by (cases "on_record (h\<lparr>Date_now := c\<rparr>) b p") simp_all
      from Cons.IH [OF b'(2)] Continue b'(1) Inr show ?thesis by simp
    next
      case (Return a')
      then show ?thesis by (simp add: on_record_not_Return)
    next
      case (Throw a' x)
      with s obtain b' where "on_record (h\<lparr>Date_now := c\<rparr>) b p = Throw b' x" "sim a' b'"
        by (cases "on_record (h\<lparr>Date_now := c\<rparr>) b p") simp_all
      with Throw Inr show ?thesis by simp
    qed
  qed
qed

lemma begin_request_sim:
  assumes "input pg2 = input pg1" "enableWebSearch pg2 = enableWebSearch pg1"
  shows "sim (begin_request h pg1) (begin_request (h\<lparr>Date_now := c\<rparr>) pg2)"
  using assms by (simp add: sim_def begin_request_def Let_def request_event_def)

lemma try_block_sim:
  assumes "sim a b" "lastEventTime a = startTime a" "lastEventTime b = startTime b"
  shows "same_flow (try_block h resp a) (try_block (h\<lparr>Date_now := c\<rparr>) resp b)"
proof (cases resp)
  case (FetchRejected x)
  with assms(1) show ?thesis by (simp add: try_block_def)
next
  case (Response ok body)
  show ?thesis
  proof (cases "ok \<and> body \<noteq> None")
    case True
    then obtain reads where "ok" "body = Some reads" by auto
    with Response assms for_parsed_sim [OF assms(1), of h "received h reads" c]
    show ?thesis by (simp add: try_block_parsed)
  next
    case False
    with Response assms(1) show ?thesis by (cases body) (auto simp: try_block_def)
  qed
qed

text \<open>
  Claim C9, as the code has it. Two runs of the reader on the same response, each started
  on a page that is not loading, with the same input, not blank, and the same web search
  flag, and each with its own clock, end with the same error or none, log entries of the
  same types and payloads in the same order, the same search results and, when they end
  without an error, the same text in the assistant message. The log of each run is the
  \<open>request\<close> entry followed by the entries of the frames handled, with the timestamps and
  elapsed times read from the clock of that run; the two logs are equal only if both
  runs read the same start time.
\<close>

theorem replay_same_text_and_events:
  assumes "\<not> is_blank (input pg1)" "\<not> isLoading pg1" "\<not> isLoading pg2"
    and "input pg2 = input pg1" "enableWebSearch pg2 = enableWebSearch pg1"
  shows "error (handleSubmit (h\<lparr>Date_now := c\<rparr>) resp pg2) = error (handleSubmit h resp pg1) \<and>
     map etype (apiEvents (handleSubmit (h\<lparr>Date_now := c\<rparr>) resp pg2)) =
       map etype (apiEvents (handleSubmit h resp pg1)) \<and>
     map data (apiEvents (handleSubmit (h\<lparr>Date_now := c\<rparr>) resp pg2)) =
       map data (apiEvents (handleSubmit h resp pg1)) \<and>
     webSearchResults_page (handleSubmit (h\<lparr>Date_now := c\<rparr>) resp pg2) =
       webSearchResults_page (handleSubmit h resp pg1) \<and>
     (error (handleSubmit h resp pg1) = None \<longrightarrow>
        content (last (messages (handleSubmit (h\<lparr>Date_now := c\<rparr>) resp pg2))) =
        content (last (messages (handleSubmit h resp pg1)))) \<and>
     apiEvents (handleSubmit h resp pg1) =
       request_event pg1 (Date_now h 0) #
       entries h 3 (Date_now h 0) (handled (received h (body_reads resp))) \<and>
     apiEvents (handleSubmit (h\<lparr>Date_now := c\<rparr>) resp pg2) =
       request_event pg2 (c 0) #
       entries (h\<lparr>Date_now := c\<rparr>) 3 (c 0) (handled (received h (body_reads resp))) \<and>
     (apiEvents (handleSubmit (h\<lparr>Date_now := c\<rparr>) resp pg2) =
        apiEvents (handleSubmit h resp pg1) \<longrightarrow> c 0 = Date_now h 0)"
proof -
  let ?h2 = "h\<lparr>Date_now := c\<rparr>"
  let ?t1 = "try_block h resp (begin_request h pg1)"
  let ?t2 = "try_block ?h2 resp (begin_request ?h2 pg2)"
  let ?F = "handled (received h (body_reads resp))"
  from assms(1,4) have nb2: "\<not> is_blank (input pg2)" by simp
  have s: "same_flow ?t1 ?t2"
    by (rule try_block_sim) (simp_all add: begin_request_sim assms begin_request_simps)
  have first: "error (handleSubmit ?h2 resp pg2) = error (handleSubmit h resp pg1) \<and>
     map etype (apiEvents (handleSubmit ?h2 resp pg2)) =
       map etype (apiEvents (handleSubmit h resp pg1)) \<and>
     map data (apiEvents (handleSubmit ?h2 resp pg2)) =
       map data (apiEvents (handleSubmit h resp pg1)) \<and>
     webSearchResults_page (handleSubmit ?h2 resp pg2) =
       webSearchResults_page (handleSubmit h resp pg1) \<and>
     (error (handleSubmit h resp pg1) = None \<longrightarrow>
        content (last (messages (handleSubmit ?h2 resp pg2))) =
        content (last (messages (handleSubmit h resp pg1))))"
  proof (cases ?t1)
    case (Continue a)
    with s obtain b where b: "?t2 = Continue b" "sim a b" by (cases ?t2) simp_all
    note r1 = handleSubmit_Continue [OF assms(1,2) Continue]
    note r2 = handleSubmit_Continue [OF nb2 assms(3) b(1)]
    note t1 = handleSubmit_success(3) [OF assms(1,2) Continue]
    note t2 = handleSubmit_success(3) [OF nb2 assms(3) b(1)]
    have "text_of ?h2 (frames_of (received ?h2 (body_reads resp))) =
          text_of h (frames_of (received h (body_reads resp)))"
      by (simp add: text_of_host [of ?h2 h])
    with t1 t2 have "content (last (messages (handleSubmit ?h2 resp pg2))) =
        content (last (messages (handleSubmit h resp pg1)))"
      by simp
    with b(2) show ?thesis by (simp add: r1 r2 sim_def)
  next
    case (Return a)
    then show ?thesis by (simp add: try_block_not_Return begin_request_simps)
  next
    case (Throw a x)
    with s obtain b where b: "?t2 = Throw b x" "sim a b" by (cases ?t2) simp_all
    note r1 = handleSubmit_Throw [OF assms(1,2) Throw]
    note r2 = handleSubmit_Throw [OF nb2 assms(3) b(1)]
    from b(2) show ?thesis by (simp add: r1 r2 sim_def)
  qed
  have l1: "apiEvents (handleSubmit h resp pg1) =
       request_event pg1 (Date_now h 0) # entries h 3 (Date_now h 0) ?F"
    using assms(1,2) by (rule handleSubmit_log)
  have l2: "apiEvents (handleSubmit ?h2 resp pg2) =
       request_event pg2 (c 0) # entries ?h2 3 (c 0) ?F"
    using handleSubmit_log [OF nb2 assms(3), of ?h2 resp] by simp
  have l3: "apiEvents (handleSubmit ?h2 resp pg2) = apiEvents (handleSubmit h resp pg1) \<longrightarrow>
      c 0 = Date_now h 0"
  proof
    assume "apiEvents (handleSubmit ?h2 resp pg2) = apiEvents (handleSubmit h resp pg1)"
    with l1 l2 have "request_event pg2 (c 0) = request_event pg1 (Date_now h 0)" by simp
    then have "timestamp (request_event pg2 (c 0)) = timestamp (request_event pg1 (Date_now h 0))"
      by simp
    then show "c 0 = Date_now h 0" by (simp add: request_event_def)
  qed
  from first l1 l2 l3 show ?thesis by (intro conjI) blast+
qed

theorem replay_same_text_and_events_witness:
  "\<not> is_blank (input demo_page) \<and> \<not> isLoading demo_page \<and> \<not> isLoading later_page \<and>
   input later_page = input demo_page \<and>
   enableWebSearch later_page = enableWebSearch demo_page \<and>
   error (handleSubmit demo_host (Response True (Some good_body)) demo_page) = None \<and>
   map etype (apiEvents (handleSubmit (demo_host\<lparr>Date_now := \<lambda>n. 2000 + 7 * int n\<rparr>)
       (Response True (Some good_body)) later_page)) =
     map etype (apiEvents (handleSubmit demo_host (Response True (Some good_body)) demo_page)) \<and>
   map data (apiEvents (handleSubmit (demo_host\<lparr>Date_now := \<lambda>n. 2000 + 7 * int n\<rparr>)
       (Response True (Some good_body)) later_page)) =
     map data (apiEvents (handleSubmit demo_host (Response True (Some good_body)) demo_page)) \<and>
   content (last (messages (handleSubmit (demo_host\<lparr>Date_now := \<lambda>n. 2000 + 7 * int n\<rparr>)
       (Response True (Some good_body)) later_page))) = ''Hello'' \<and>
   content (last (messages (handleSubmit demo_host (Response True (Some good_body)) demo_page))) =
     ''Hello'' \<and>
   apiEvents (handleSubmit (demo_host\<lparr>Date_now := \<lambda>n. 2000 + 7 * int n\<rparr>)
       (Response True (Some good_body)) later_page) \<noteq>
     apiEvents (handleSubmit demo_host (Response True (Some good_body)) demo_page)"
proof -
  let ?resp = "Response True (Some good_body)"
  have a: "\<not> is_blank (input demo_page)" by code_simp
  have b: "\<not> isLoading demo_page" by code_simp
  have c: "\<not> isLoading later_page" by code_simp
  have d: "input later_page = input demo_page" by code_simp
  have e: "enableWebSearch later_page = enableWebSearch demo_page" by code_simp
  have f: "error (handleSubmit demo_host ?resp demo_page) = None" by code_simp
  have g: "content (last (messages (handleSubmit demo_host ?resp demo_page))) = ''Hello''"
    by code_simp
  have k: "(\<lambda>n. 2000 + 7 * int n) 0 \<noteq> Date_now demo_host 0" by (simp add: demo_host_def)
  note inst = replay_same_text_and_events [OF a b c d e,
      where h = demo_host and c = "\<lambda>n. 2000 + 7 * int n" and resp = ?resp]
  from inst k have ne: "apiEvents (handleSubmit (demo_host\<lparr>Date_now := \<lambda>n. 2000 + 7 * int n\<rparr>)
       ?resp later_page) \<noteq> apiEvents (handleSubmit demo_host ?resp demo_page)"
    by blast
  from inst have i2: "map etype (apiEvents (handleSubmit
       (demo_host\<lparr>Date_now := \<lambda>n. 2000 + 7 * int n\<rparr>) ?resp later_page)) =
     map etype (apiEvents (handleSubmit demo_host ?resp demo_page))"
    by blast
  from inst have i3: "map data (apiEvents (handleSubmit
       (demo_host\<lparr>Date_now := \<lambda>n. 2000 + 7 * int n\<rparr>) ?resp later_page)) =
     map data (apiEvents (handleSubmit demo_host ?resp demo_page))"
    by blast
  from inst f have "content (last (messages (handleSubmit
       (demo_host\<lparr>Date_now := \<lambda>n. 2000 + 7 * int n\<rparr>) ?resp later_page))) =
     content (last (messages (handleSubmit demo_host ?resp demo_page)))"
    by blast
  with g have i5: "content (last (messages (handleSubmit
       (demo_host\<lparr>Date_now := \<lambda>n. 2000 + 7 * int n\<rparr>) ?resp later_page))) = ''Hello''"
    by simp
  show ?thesis by (intro conjI a b c d e f i2 i3 i5 g ne)
qed

text \<open>
  With another clock the entries of the log differ in their timestamps; with another
  input or another web search flag the \<open>request\<close> entry differs in its payload.
\<close>

theorem replay_log_counterexample:
  "map timestamp (apiEvents (handleSubmit demo_host (Response True (Some good_body)) demo_page)) =
     [1000, 1015, 1030] \<and>
   map timestamp (apiEvents (handleSubmit (demo_host\<lparr>Date_now := \<lambda>n. 2000 + 7 * int n\<rparr>)
      (Response True (Some good_body)) demo_page)) = [2000, 2021, 2042] \<and>
   apiEvents (handleSubmit (demo_host\<lparr>Date_now := \<lambda>n. 2000 + 7 * int n\<rparr>)
      (Response True (Some good_body)) demo_page) \<noteq>
   apiEvents (handleSubmit demo_host (Response True (Some good_body)) demo_page) \<and>
   map data (apiEvents (handleSubmit demo_host (Response True (Some good_body)) other_page)) \<noteq>
   map data (apiEvents (handleSubmit demo_host (Response True (Some good_body)) demo_page)) \<and>
   map data (apiEvents (handleSubmit demo_host (Response True (Some good_body)) search_page)) \<noteq>
   map data (apiEvents (handleSubmit demo_host (Response True (Some good_body)) demo_page))"
  by code_simp

end
